theory Spec2Isabelle
  imports Main
begin
section \<open>Python strings\<close>

text \<open>
  A Python \<open>str\<close> is modelled as a \<open>string\<close> (a list of 8-bit characters). The model
  reads every character as an ASCII code point: case mapping touches the letters
  \<open>A\<close>..\<open>Z\<close> and \<open>a\<close>..\<open>z\<close> only, white space and line boundaries are the ASCII ones that
  \<open>str.isspace\<close> and \<open>str.splitlines\<close> know. Characters above 127 are carried through
  unchanged.

  What \<open>str.strip\<close> and \<open>str.lower\<close> do to characters beyond ASCII follows Python's
  Unicode tables. \<open>generate_endpoints_with\<close> and \<open>filter_channels\<close> therefore take these
  built-ins as parameters (\<open>str_strip\<close>, \<open>str_lower\<close>): what is proved of them holds
  whatever the two functions are, so for the built-ins of Python too.
\<close>

text \<open>\<open>str.isspace\<close> on one ASCII character: TAB, LF, VT, FF, CR, FS, GS, RS, US and space.\<close>

definition is_space :: "char \<Rightarrow> bool" where
  "is_space c =
     (c = CHR 0x09 \<or> c = CHR 0x0A \<or> c = CHR 0x0B \<or> c = CHR 0x0C \<or> c = CHR 0x0D \<or>
      c = CHR 0x1C \<or> c = CHR 0x1D \<or> c = CHR 0x1E \<or> c = CHR 0x1F \<or> c = CHR 0x20)"

text \<open>\<open>s.strip()\<close>: leading and trailing white space removed.\<close>

definition strip :: "string \<Rightarrow> string" where
  "strip s = rev (dropWhile is_space (rev (dropWhile is_space s)))"

text \<open>\<open>s.rstrip(chars)\<close>: trailing characters that occur in \<open>chars\<close> removed.\<close>

definition rstrip_chars :: "string \<Rightarrow> string \<Rightarrow> string" where
  "rstrip_chars chars s = rev (dropWhile (\<lambda>c. c \<in> set chars) (rev s))"

text \<open>\<open>s.startswith(p)\<close>.\<close>

definition startswith :: "string \<Rightarrow> string \<Rightarrow> bool" where
  "startswith s p = (take (length p) s = p)"

text \<open>\<open>p in s\<close> for strings: \<open>p\<close> occurs in \<open>s\<close> as a contiguous substring.\<close>

fun contains :: "string \<Rightarrow> string \<Rightarrow> bool" where
  "contains [] p = (p = [])"
| "contains (c # cs) p = (startswith (c # cs) p \<or> contains cs p)"

text \<open>\<open>s.lower()\<close> and \<open>s.upper()\<close> on ASCII letters.\<close>

definition lower_char :: "char \<Rightarrow> char" where
  "lower_char c =
     (case map_of (zip ''ABCDEFGHIJKLMNOPQRSTUVWXYZ'' ''abcdefghijklmnopqrstuvwxyz'') c of
        Some d \<Rightarrow> d | None \<Rightarrow> c)"

definition upper_char :: "char \<Rightarrow> char" where
  "upper_char c =
     (case map_of (zip ''abcdefghijklmnopqrstuvwxyz'' ''ABCDEFGHIJKLMNOPQRSTUVWXYZ'') c of
        Some d \<Rightarrow> d | None \<Rightarrow> c)"

definition lower :: "string \<Rightarrow> string" where
  "lower s = map lower_char s"

definition upper :: "string \<Rightarrow> string" where
  "upper s = map upper_char s"

text \<open>
  \<open>s.split(sep, 1)\<close> for a non-empty separator: the text before and after the first
  occurrence of \<open>sep\<close>, or the one-element list \<open>[s]\<close> when \<open>sep\<close> does not occur.
\<close>

fun split_at_first :: "string \<Rightarrow> string \<Rightarrow> (string \<times> string) option" where
  "split_at_first sep [] = None"
| "split_at_first sep (c # cs) =
     (if startswith (c # cs) sep then Some ([], drop (length sep) (c # cs))
      else map_option (\<lambda>(a, b). (c # a, b)) (split_at_first sep cs))"

definition split1 :: "string \<Rightarrow> string \<Rightarrow> string list" where
  "split1 sep s = (case split_at_first sep s of None \<Rightarrow> [s] | Some (a, b) \<Rightarrow> [a, b])"

section \<open>Exceptions\<close>

text \<open>
  The instances of Python's \<open>Exception\<close> the modelled code can meet: the three raised by
  the language itself, and \<open>LibraryError\<close> for whatever an HTTP client library raises
  (connection, timeout, TLS, DNS failure), tagged with its message.
\<close>

datatype exn = ValueError | IndexError | AttributeError | LibraryError string

section \<open>Endpoint generator\<close>

text \<open>
  \<open>generate_endpoints\<close> of \<open>main.py\<close>, block by block, with \<open>str.strip\<close> as the parameter
  \<open>str_strip\<close>. The address is stripped of white space, then of trailing slashes.
\<close>

definition normalize_address :: "(string \<Rightarrow> string) \<Rightarrow> string \<Rightarrow> string" where
  "normalize_address str_strip base_server = rstrip_chars ''/'' (str_strip base_server)"

text \<open>
  The schemes to try and the host. Unpacking \<open>proto, rest = s.split("://", 1)\<close> raises
  \<open>ValueError\<close> unless the split has two parts.
\<close>

definition schemes_and_host :: "string \<Rightarrow> exn + (string list \<times> string)" where
  "schemes_and_host s =
     (if startswith s ''http://'' \<or> startswith s ''https://'' then
        (case split1 ''://'' s of
           [proto, rest] \<Rightarrow>
             Inr ([proto, if proto = ''http'' then ''https'' else ''http''], rest)
         | _ \<Rightarrow> Inl ValueError)
      else Inr ([''http'', ''https''], s))"

text \<open>The port suffixes: the seven common ones, or none when the host has a colon
  and does not start with a bracket.\<close>

definition common_ports :: "string \<Rightarrow> string list" where
  "common_ports host =
     (if CHR '':'' \<in> set host \<and> \<not> startswith host ''[''
      then [[]]
      else [[], '':80'', '':8080'', '':8000'', '':8081'', '':8443'', '':443''])"

text \<open>The nested loop: for each scheme, for each port.\<close>

definition candidates :: "string list \<Rightarrow> string \<Rightarrow> string list \<Rightarrow> string list" where
  "candidates schemes host ports =
     concat (map (\<lambda>scheme. map (\<lambda>p. rstrip_chars ''/'' (scheme @ ''://'' @ host @ p)) ports)
       schemes)"

text \<open>The de-duplication loop, with its \<open>seen\<close> set and its \<open>uniq\<close> list.\<close>

fun uniq_loop :: "string list \<Rightarrow> string set \<Rightarrow> string list \<Rightarrow> string list" where
  "uniq_loop [] seen uniq = uniq"
| "uniq_loop (u # us) seen uniq =
     (if u \<notin> seen then uniq_loop us (insert u seen) (uniq @ [u])
      else uniq_loop us seen uniq)"

definition generate_endpoints_with :: "(string \<Rightarrow> string) \<Rightarrow> string \<Rightarrow> exn + string list" where
  "generate_endpoints_with str_strip base_server =
     (let s = normalize_address str_strip base_server in
      case schemes_and_host s of
        Inl e \<Rightarrow> Inl e
      | Inr (schemes, host) \<Rightarrow>
          Inr (uniq_loop (candidates schemes host (common_ports host)) {} []))"

text \<open>\<open>generate_endpoints\<close> with the ASCII \<open>strip\<close> of this theory.\<close>

definition generate_endpoints :: "string \<Rightarrow> exn + string list" where
  "generate_endpoints base_server = generate_endpoints_with strip base_server"

text \<open>
  \<open>generate_endpoints\<close> of \<open>xtream.py\<close>, translated from that file on its own, as one
  definition.
\<close>

definition generate_endpoints_xtream :: "string \<Rightarrow> exn + string list" where
  "generate_endpoints_xtream base_server =
     (let s = rstrip_chars ''/'' (strip base_server) in
      case (if startswith s ''http://'' \<or> startswith s ''https://'' then
              (case split1 ''://'' s of
                 [proto, rest] \<Rightarrow>
                   Inr (rest, [proto] @ [if proto = ''http'' then ''https'' else ''http''])
               | _ \<Rightarrow> Inl ValueError)
            else Inr (s, [''http'', ''https''])) of
        Inl e \<Rightarrow> Inl e
      | Inr (host, schemes) \<Rightarrow>
          (let ports = (if CHR '':'' \<in> set host \<and> \<not> startswith host ''[''
                        then [[]]
                        else [[], '':80'', '':8080'', '':8000'', '':8081'', '':8443'', '':443'']);
               cands = concat (map (\<lambda>scheme.
                          map (\<lambda>p. rstrip_chars ''/'' (scheme @ ''://'' @ host @ p)) ports) schemes)
           in Inr (uniq_loop cands {} [])))"

section \<open>Playlist codec\<close>

text \<open>
  A channel is a Python dict with the keys \<open>title\<close>, \<open>duration\<close>, \<open>attrs\<close>, \<open>url\<close> and
  \<open>raw_extinf\<close>. A field is \<open>None\<close> when the dict has no such key, which is what
  \<open>dict.get\<close> tests. The attribute dict is a list of key-value pairs in insertion order.
\<close>

record channel =
  title :: "string option"
  duration :: "string option"
  attrs :: "(string \<times> string) list option"
  url :: "string option"
  raw_extinf :: "string option"

text \<open>\<open>d[k] = v\<close> on an insertion-ordered dict: an existing key keeps its place.\<close>

fun dict_set :: "('k \<times> 'v) list \<Rightarrow> 'k \<Rightarrow> 'v \<Rightarrow> ('k \<times> 'v) list" where
  "dict_set [] k v = [(k, v)]"
| "dict_set ((k', v') # d) k v =
     (if k' = k then (k, v) # d else (k', v') # dict_set d k v)"

text \<open>\<open>dict(pairs)\<close>.\<close>

definition dict_of_pairs :: "('k \<times> 'v) list \<Rightarrow> ('k \<times> 'v) list" where
  "dict_of_pairs ps = foldl (\<lambda>d (k, v). dict_set d k v) [] ps"

text \<open>\<open>d.get(k, default)\<close>.\<close>

definition dict_get :: "('k \<times> 'v) list \<Rightarrow> 'k \<Rightarrow> 'v \<Rightarrow> 'v" where
  "dict_get d k dflt = (case map_of d k of None \<Rightarrow> dflt | Some v \<Rightarrow> v)"

abbreviation LF :: char where "LF \<equiv> CHR 0x0A"
abbreviation CR :: char where "CR \<equiv> CHR 0x0D"
abbreviation DQUOTE :: char where "DQUOTE \<equiv> CHR 0x22"
abbreviation SQUOTE :: char where "SQUOTE \<equiv> CHR 0x27"

text \<open>The ASCII line boundaries of \<open>str.splitlines\<close>: LF, VT, FF, CR, FS, GS, RS.\<close>

definition is_linebreak :: "char \<Rightarrow> bool" where
  "is_linebreak c =
     (c = CHR 0x0A \<or> c = CHR 0x0B \<or> c = CHR 0x0C \<or> c = CHR 0x0D \<or>
      c = CHR 0x1C \<or> c = CHR 0x1D \<or> c = CHR 0x1E)"

text \<open>
  \<open>s.splitlines()\<close>: the lines without their boundaries; CR LF is one boundary; a
  boundary at the very end starts no further line.
\<close>

function splitlines :: "string \<Rightarrow> string list" where
  "splitlines [] = []"
| "splitlines (c # cs) =
     (let line = takeWhile (\<lambda>x. \<not> is_linebreak x) (c # cs);
          rest = dropWhile (\<lambda>x. \<not> is_linebreak x) (c # cs)
      in case rest of
           [] \<Rightarrow> [line]
         | b # rest' \<Rightarrow>
             line # splitlines (if b = CR \<and> startswith rest' [LF] then tl rest' else rest'))"
  by pat_completeness auto
termination
proof (relation "measure length", goal_cases)
  case 1
  show ?case by simp
next
  case (2 c cs line rest b rest')
  have "length rest \<le> length (c # cs)"
    unfolding 2(2) by (rule length_dropWhile_le)
  then have "length rest' < length (c # cs)"
    using 2(3) by simp
  moreover have "length (tl rest') \<le> length rest'"
    by simp
  ultimately show ?case
    by auto
qed

text \<open>The character classes of the two regular expressions.\<close>

definition is_digit :: "char \<Rightarrow> bool" where
  "is_digit c = ((48::nat) \<le> of_char c \<and> of_char c \<le> (57::nat))"

definition is_letter :: "char \<Rightarrow> bool" where
  "is_letter c =
     (((65::nat) \<le> of_char c \<and> of_char c \<le> (90::nat)) \<or>
      ((97::nat) \<le> of_char c \<and> of_char c \<le> (122::nat)))"

text \<open>\<open>[-0-9]\<close>\<close>

definition is_dur_char :: "char \<Rightarrow> bool" where
  "is_dur_char c = (c = CHR ''-'' \<or> is_digit c)"

text \<open>\<open>[a-zA-Z0-9\-_]\<close>\<close>

definition is_key_char :: "char \<Rightarrow> bool" where
  "is_key_char c = (is_letter c \<or> is_digit c \<or> c = CHR ''-'' \<or> c = CHR ''_'')"

text \<open>
  \<open>re.match(r'#EXTINF:([-0-9]+)', header, re.IGNORECASE)\<close>, group 1: the header starts
  with \<open>#EXTINF:\<close> in any letter case, followed by the longest non-empty run of
  \<open>[-0-9]\<close>.
\<close>

definition match_duration :: "string \<Rightarrow> string option" where
  "match_duration header =
     (if upper (take 8 header) = ''#EXTINF:'' \<and>
         takeWhile is_dur_char (drop 8 header) \<noteq> []
      then Some (takeWhile is_dur_char (drop 8 header)) else None)"

text \<open>
  One match of \<open>([a-zA-Z0-9\-_]+?)="(.*?)"\<close> starting at the first character of \<open>s\<close>: the
  key, the value and the text after the match. The lazy key must stop right before
  \<open>="\<close>, and \<open>=\<close> is no key character, so the key is the whole run of key characters.
  The lazy value stops at the first double quote; \<open>.\<close> does not match LF.
\<close>

definition match_attr :: "string \<Rightarrow> ((string \<times> string) \<times> string) option" where
  "match_attr s =
     (let key = takeWhile is_key_char s;
          r = dropWhile is_key_char s
      in if key \<noteq> [] \<and> startswith r [CHR ''='', DQUOTE] then
           (let body = drop 2 r;
                v = takeWhile (\<lambda>c. c \<noteq> DQUOTE) body;
                r2 = dropWhile (\<lambda>c. c \<noteq> DQUOTE) body
            in if r2 \<noteq> [] \<and> LF \<notin> set v then Some ((key, v), tl r2) else None)
         else None)"

lemma match_attr_shorter: "match_attr s = Some (kv, rest) \<Longrightarrow> length rest < length s"
proof -
  assume m: "match_attr s = Some (kv, rest)"
  let ?r = "dropWhile is_key_char s"
  let ?r2 = "dropWhile (\<lambda>c. c \<noteq> DQUOTE) (drop 2 ?r)"
  from m have "?r2 \<noteq> []" and "rest = tl ?r2" and "takeWhile is_key_char s \<noteq> []"
    by (auto simp: match_attr_def Let_def split: if_splits)
  then have "length rest < length ?r2"
    by (cases ?r2) auto
  also have "\<dots> \<le> length (drop 2 ?r)"
    by (rule length_dropWhile_le)
  also have "\<dots> \<le> length ?r"
    by simp
  also have "\<dots> \<le> length s"
    by (rule length_dropWhile_le)
  finally show ?thesis .
qed

text \<open>\<open>re.findall\<close> of that pattern: matches from left to right, without overlap.\<close>

function findall_attrs :: "string \<Rightarrow> (string \<times> string) list" where
  "findall_attrs [] = []"
| "findall_attrs (c # cs) =
     (case match_attr (c # cs) of
        Some (kv, rest) \<Rightarrow> kv # findall_attrs rest
      | None \<Rightarrow> findall_attrs cs)"
  by pat_completeness auto
termination
  by (relation "measure length") (auto dest: match_attr_shorter)

text \<open>
  The look-ahead of \<open>parse_m3u_to_json\<close> for the URL, on the lines after index \<open>i\<close>: the
  first line that, stripped, is neither empty nor starts with \<open>#\<close>, and the lines from
  which the outer loop goes on (\<open>i = j + 1\<close>). When the look-ahead runs off the end the
  URL stays empty and no line is left.
\<close>

fun find_url :: "string list \<Rightarrow> string \<times> string list" where
  "find_url [] = ([], [])"
| "find_url (l # ls) =
     (let candidate = strip l
      in if candidate = [] \<or> startswith candidate ''#'' then find_url ls
         else (candidate, ls))"

lemma find_url_shorter: "length (snd (find_url ls)) \<le> length ls"
  by (induction ls) (auto simp: Let_def)

text \<open>The channel dict built from a stripped \<open>#EXTINF\<close> line and the URL found.\<close>

definition extinf_channel :: "string \<Rightarrow> string \<Rightarrow> channel" where
  "extinf_channel ln u =
     (let parts = split1 '','' ln;
          header = parts ! 0;
          ttl = (if length parts = 2 then strip (parts ! 1) else []);
          dur = (case match_duration header of Some d \<Rightarrow> d | None \<Rightarrow> []);
          ats = dict_of_pairs (findall_attrs header)
      in \<lparr>title = Some ttl, duration = Some dur, attrs = Some ats, url = Some u,
          raw_extinf = Some ln\<rparr>)"

text \<open>The outer \<open>while i < len(lines)\<close> loop, on the lines from index \<open>i\<close> on.\<close>

function parse_lines :: "string list \<Rightarrow> channel list" where
  "parse_lines [] = []"
| "parse_lines (l # ls) =
     (let ln = strip l
      in if ln = [] then parse_lines ls
         else if startswith (upper ln) ''#EXTINF''
         then extinf_channel ln (fst (find_url ls)) # parse_lines (snd (find_url ls))
         else parse_lines ls)"
  by pat_completeness auto
termination
proof (relation "measure length", goal_cases)
  case (3 l ls ln)
  show ?case
    using find_url_shorter[of ls] by simp
qed auto

text \<open>\<open>parse_m3u_to_json\<close> (the progress output of \<open>verbose\<close> is not modelled).\<close>

definition parse_m3u_to_json :: "string \<Rightarrow> channel list" where
  "parse_m3u_to_json m3u_text = parse_lines (map (rstrip_chars [LF]) (splitlines m3u_text))"

text \<open>\<open>sep.join(parts)\<close> and \<open>v.replace('"', "'")\<close>.\<close>

fun join :: "string \<Rightarrow> string list \<Rightarrow> string" where
  "join sep [] = []"
| "join sep [x] = x"
| "join sep (x # y # ys) = x @ sep @ join sep (y # ys)"

definition replace_char :: "char \<Rightarrow> char \<Rightarrow> string \<Rightarrow> string" where
  "replace_char a b s = map (\<lambda>c. if c = a then b else c) s"

definition build_extinf_line :: "channel \<Rightarrow> string" where
  "build_extinf_line entry =
     (let dur = (case duration entry of None \<Rightarrow> ''-1'' | Some d \<Rightarrow> d);
          ats = (case attrs entry of None \<Rightarrow> [] | Some a \<Rightarrow> a);
          attr_parts = map (\<lambda>(k, v). k @ [CHR ''='', DQUOTE] @ replace_char DQUOTE SQUOTE v @ [DQUOTE]) ats;
          attr_str = join '' '' attr_parts;
          ttl = (case title entry of None \<Rightarrow> [] | Some t \<Rightarrow> t)
      in if attr_str \<noteq> [] then ''#EXTINF:'' @ dur @ '' '' @ attr_str @ '','' @ ttl
         else ''#EXTINF:'' @ dur @ '','' @ ttl)"

text \<open>
  \<open>create_m3u_from_channels\<close>: the text written to \<open>out_path\<close> (the progress bar and the
  failure of the file system are not modelled).
\<close>

definition create_m3u_from_channels :: "channel list \<Rightarrow> string" where
  "create_m3u_from_channels channels =
     ''#EXTM3U'' @ [LF] @
     concat (map (\<lambda>ch. build_extinf_line ch @ [LF] @
                        (case url ch of None \<Rightarrow> [] | Some u \<Rightarrow> u) @ [LF]) channels)"

section \<open>Filter\<close>

text \<open>
  The loop of \<open>filter_channels\<close>, appending to \<open>out\<close>. \<open>str.lower\<close> is the parameter
  \<open>str_lower\<close>.
\<close>

fun filter_loop ::
  "(string \<Rightarrow> string) \<Rightarrow> channel list \<Rightarrow> string \<Rightarrow> string \<Rightarrow> channel list \<Rightarrow> channel list" where
  "filter_loop str_lower [] field kw out = out"
| "filter_loop str_lower (ch # chs) field kw out =
     (if field = ''title'' then
        (if contains (str_lower (case title ch of None \<Rightarrow> [] | Some t \<Rightarrow> t)) kw
         then filter_loop str_lower chs field kw (out @ [ch])
         else filter_loop str_lower chs field kw out)
      else if field = ''group'' then
        (let grp = dict_get (case attrs ch of None \<Rightarrow> [] | Some a \<Rightarrow> a) ''group-title'' []
         in if contains (str_lower grp) kw
            then filter_loop str_lower chs field kw (out @ [ch])
            else filter_loop str_lower chs field kw out)
      else
        (let val = dict_get (case attrs ch of None \<Rightarrow> [] | Some a \<Rightarrow> a) field []
         in if contains (str_lower val) kw
            then filter_loop str_lower chs field kw (out @ [ch])
            else filter_loop str_lower chs field kw out))"

text \<open>
  \<open>filter_channels\<close>, with \<open>str.strip\<close> and \<open>str.lower\<close> as the parameters \<open>str_strip\<close> and
  \<open>str_lower\<close>. The slice \<open>channels[:]\<close> is a list equal to \<open>channels\<close>. The test
  \<open>kw in value\<close> looks for \<open>kw\<close> as a run of consecutive characters of \<open>value\<close>.
\<close>

definition filter_channels ::
  "(string \<Rightarrow> string) \<Rightarrow> (string \<Rightarrow> string) \<Rightarrow> channel list \<Rightarrow> string \<Rightarrow> string \<Rightarrow>
   channel list" where
  "filter_channels str_strip str_lower channels field keyword =
     (if keyword = [] then channels
      else filter_loop str_lower channels field (str_lower (str_strip keyword)) [])"

section \<open>Responses, HTTP clients and the outside world\<close>

text \<open>A decoded JSON document (numbers are integers here).\<close>

datatype json =
  JNull | JBool bool | JNum int | JStr string | JArr "json list" | JObj "(string \<times> json) list"

text \<open>Python's truth value of a decoded JSON value, as \<open>x or {}\<close> tests it.\<close>

fun truthy :: "json \<Rightarrow> bool" where
  "truthy JNull = False"
| "truthy (JBool b) = b"
| "truthy (JNum n) = (n \<noteq> 0)"
| "truthy (JStr s) = (s \<noteq> [])"
| "truthy (JArr xs) = (xs \<noteq> [])"
| "truthy (JObj kvs) = (kvs \<noteq> [])"

text \<open>
  What the code reads of a response object: \<open>resp.status_code\<close>, \<open>resp.text\<close>, the
  outcome of \<open>resp.json()\<close> (\<open>Inl\<close> when it raises), and the outcome of consuming
  \<open>resp.iter_content\<close> and decoding the joined chunks (\<open>Inl\<close> when the stream raises;
  decoding itself falls back to UTF-8 with replacement and cannot fail).
\<close>

record response =
  status_code :: int
  body_text :: string
  json_result :: "exn + json"
  stream_result :: "exn + string"

text \<open>
  The environment the program runs in: whether \<open>cloudscraper\<close> could be imported, what a
  \<open>get\<close> of either client does for a URL, a timeout and a stream flag (\<open>Inl\<close> when it
  raises), the successive readings of \<open>int(time.time())\<close>, and whether a file can be
  opened and written.
\<close>

record env =
  has_cloudscraper :: bool
  scraper_get :: "string \<Rightarrow> nat \<Rightarrow> bool \<Rightarrow> exn + response"
  requests_get :: "string \<Rightarrow> nat \<Rightarrow> bool \<Rightarrow> exn + response"
  time_at :: "nat \<Rightarrow> int"
  can_write :: "string \<Rightarrow> bool"

text \<open>A saved server, as \<open>add_server\<close> builds it.\<close>

record server =
  name :: string
  server_url :: string
  username :: string
  password :: string
  created_at :: int
  last_check :: "int option"
  last_endpoint :: "string option"
  last_client :: "string option"
  user_info :: json
  server_info :: json

text \<open>
  The state the program changes: the files of the debug directory (path and content),
  how often the clock has been read, the URLs requested so far, and the content of
  \<open>servers.json\<close>.
\<close>

record world =
  debug_files :: "(string \<times> string) list"
  clock_reads :: nat
  requests_log :: "string list"
  servers_file :: "server list"

text \<open>\<open>str(n)\<close> for an integer, in decimal.\<close>

definition digit_char :: "nat \<Rightarrow> char" where
  "digit_char d = ''0123456789'' ! d"

function show_nat :: "nat \<Rightarrow> string" where
  "show_nat n = (if n < 10 then [digit_char n] else show_nat (n div 10) @ [digit_char (n mod 10)])"
  by pat_completeness auto
termination
  by (relation "measure id") auto

declare show_nat.simps [simp del]

definition show_int :: "int \<Rightarrow> string" where
  "show_int i = (if i < 0 then CHR ''-'' # show_nat (nat (- i)) else show_nat (nat i))"

text \<open>\<open>str(e)\<close> for an exception.\<close>

fun exn_str :: "exn \<Rightarrow> string" where
  "exn_str (LibraryError m) = m"
| "exn_str _ = []"

text \<open>The debug directories of \<open>main.py\<close> and of \<open>xtream.py\<close>.\<close>

definition DEBUG_DIR :: string where
  "DEBUG_DIR = ''xtream_data32/debug''"

definition DEBUG_DIR_xtream :: string where
  "DEBUG_DIR_xtream = ''xtream_data/debug''"

text \<open>The path and the content of a debug file.\<close>

definition debug_path :: "string \<Rightarrow> int \<Rightarrow> string \<Rightarrow> string" where
  "debug_path debug_dir now server_name =
     debug_dir @ ''/'' @
     replace_char CHR '' '' CHR ''_'' (show_int now @ ''_'' @ server_name @ ''_debug.txt'')"

definition debug_content :: "string \<Rightarrow> string \<Rightarrow> string" where
  "debug_content endpoint response_text =
     ''Endpoint: '' @ endpoint @ [LF, LF] @ take 500000 response_text"

text \<open>
  \<open>save_debug_response\<close>, for a module whose debug directory is \<open>debug_dir\<close>: one reading
  of the clock, then the write. An existing file of that name is replaced. A failing
  write returns \<open>None\<close> and is taken to leave the directory as it was; creating the
  directories is taken to succeed.
\<close>

definition save_debug_response ::
  "string \<Rightarrow> env \<Rightarrow> string \<Rightarrow> string \<Rightarrow> string \<Rightarrow> world \<Rightarrow> string option \<times> world" where
  "save_debug_response debug_dir env server_name endpoint response_text w =
     (let path = debug_path debug_dir (time_at env (clock_reads w)) server_name;
          w1 = w\<lparr>clock_reads := Suc (clock_reads w)\<rparr>
      in if can_write env path
         then (Some path,
               w1\<lparr>debug_files :=
                    dict_set (debug_files w1) path (debug_content endpoint response_text)\<rparr>)
         else (None, w1))"

text \<open>
  \<open>request_with_client\<close> of \<open>main.py\<close>. The outer \<open>Inr\<close> is a normal return, an outer
  \<open>Inl\<close> would be an exception leaving the function; the returned pair holds the
  response or the exception caught, and the client's name.
\<close>

definition request_with_client ::
  "env \<Rightarrow> string \<Rightarrow> nat \<Rightarrow> bool \<Rightarrow> exn + ((exn + response) \<times> string)" where
  "request_with_client env endpoint timeout stream =
     (case (if has_cloudscraper env
            then (case scraper_get env endpoint timeout stream of
                    Inr r \<Rightarrow> Some (Inr r, ''cloudscraper'')
                  | Inl e \<Rightarrow> None)
            else None) of
        Some returned \<Rightarrow> Inr returned
      | None \<Rightarrow>
          (case requests_get env endpoint timeout stream of
             Inr r \<Rightarrow> Inr (Inr r, ''requests'')
           | Inl e \<Rightarrow> Inr (Inl e, ''requests'')))"

text \<open>\<open>request_with_client\<close> of \<open>xtream.py\<close>: no stream parameter, the clients' default
  (no streaming).\<close>

definition request_with_client_xtream ::
  "env \<Rightarrow> string \<Rightarrow> nat \<Rightarrow> exn + ((exn + response) \<times> string)" where
  "request_with_client_xtream env endpoint timeout =
     (case (if has_cloudscraper env
            then (case scraper_get env endpoint timeout False of
                    Inr r \<Rightarrow> Some (Inr r, ''cloudscraper'')
                  | Inl e \<Rightarrow> None)
            else None) of
        Some returned \<Rightarrow> Inr returned
      | None \<Rightarrow>
          (case requests_get env endpoint timeout False of
             Inr r \<Rightarrow> Inr (Inr r, ''requests'')
           | Inl e \<Rightarrow> Inr (Inl e, ''requests'')))"

section \<open>Probe engine\<close>

text \<open>The result dicts of the two fetch functions.\<close>

datatype api_result =
  ApiOk string string json
| ApiFailed "(string \<times> (exn + response) \<times> string) list"

datatype playlist_result =
  PlaylistOk string string string
| PlaylistFailed

definition api_url :: "string \<Rightarrow> string \<Rightarrow> string \<Rightarrow> string" where
  "api_url base uname pword =
     base @ ''/player_api.php?username='' @ uname @ ''&password='' @ pword"

definition playlist_url :: "string \<Rightarrow> string \<Rightarrow> string \<Rightarrow> string \<Rightarrow> string" where
  "playlist_url base uname pword m3u_type =
     base @ ''/get.php?username='' @ uname @ ''&password='' @ pword @ ''&type='' @ m3u_type"

text \<open>
  The loop of \<open>fetch_player_api_robust\<close> over the endpoints still to try. The two files
  differ in the \<open>request_with_client\<close> they call (\<open>req\<close>) and in their debug directory
  only. Every request is entered in the world's log. Printing is not modelled.
\<close>

fun api_loop ::
  "(string \<Rightarrow> nat \<Rightarrow> exn + ((exn + response) \<times> string)) \<Rightarrow> string \<Rightarrow> env \<Rightarrow> string list \<Rightarrow>
   string \<Rightarrow> string \<Rightarrow> nat \<Rightarrow> (string \<times> (exn + response) \<times> string) list \<Rightarrow> world \<Rightarrow>
   (exn + api_result) \<times> world" where
  "api_loop req debug_dir env [] uname pword timeout tried w = (Inr (ApiFailed tried), w)"
| "api_loop req debug_dir env (base # rest) uname pword timeout tried w =
     (let url0 = api_url base uname pword;
          w1 = w\<lparr>requests_log := requests_log w @ [url0]\<rparr>
      in case req url0 timeout of
           Inl e \<Rightarrow> (Inl e, w1)
         | Inr (resp, client) \<Rightarrow>
             (let tried1 = tried @ [(url0, resp, client)]
              in case resp of
                   Inl e \<Rightarrow> api_loop req debug_dir env rest uname pword timeout tried1 w1
                 | Inr r \<Rightarrow>
                     if status_code r \<noteq> 200 then
                       api_loop req debug_dir env rest uname pword timeout tried1
                         (snd (save_debug_response debug_dir env ''player_api_non200'' url0
                                 (body_text r) w1))
                     else
                       (case json_result r of
                          Inr data \<Rightarrow> (Inr (ApiOk url0 client data), w1)
                        | Inl e \<Rightarrow>
                            api_loop req debug_dir env rest uname pword timeout tried1
                              (snd (save_debug_response debug_dir env ''player_api_badjson'' url0
                                      (body_text r) w1)))))"

definition fetch_player_api_robust ::
  "env \<Rightarrow> string \<Rightarrow> string \<Rightarrow> string \<Rightarrow> nat \<Rightarrow> world \<Rightarrow> (exn + api_result) \<times> world" where
  "fetch_player_api_robust env address uname pword timeout w =
     (case generate_endpoints address of
        Inl e \<Rightarrow> (Inl e, w)
      | Inr endpoints \<Rightarrow>
          api_loop (\<lambda>u t. request_with_client env u t False) DEBUG_DIR env endpoints
            uname pword timeout [] w)"

definition fetch_player_api_robust_xtream ::
  "env \<Rightarrow> string \<Rightarrow> string \<Rightarrow> string \<Rightarrow> nat \<Rightarrow> world \<Rightarrow> (exn + api_result) \<times> world" where
  "fetch_player_api_robust_xtream env address uname pword timeout w =
     (case generate_endpoints_xtream address of
        Inl e \<Rightarrow> (Inl e, w)
      | Inr endpoints \<Rightarrow>
          api_loop (request_with_client_xtream env) DEBUG_DIR_xtream env endpoints
            uname pword timeout [] w)"

text \<open>
  The loop of \<open>fetch_playlist_robust\<close> of \<open>main.py\<close>: the response is streamed, decoded
  and tested for the marker; whatever fails is saved and the next endpoint is tried.
\<close>

fun playlist_loop ::
  "env \<Rightarrow> string list \<Rightarrow> string \<Rightarrow> string \<Rightarrow> string \<Rightarrow> nat \<Rightarrow> world \<Rightarrow>
   (exn + playlist_result) \<times> world" where
  "playlist_loop env [] uname pword m3u_type timeout w = (Inr PlaylistFailed, w)"
| "playlist_loop env (base # rest) uname pword m3u_type timeout w =
     (let pl_url = playlist_url base uname pword m3u_type;
          w1 = w\<lparr>requests_log := requests_log w @ [pl_url]\<rparr>
      in case request_with_client env pl_url timeout True of
           Inl e \<Rightarrow> (Inl e, w1)
         | Inr (resp, client) \<Rightarrow>
             (case resp of
                Inl e \<Rightarrow> playlist_loop env rest uname pword m3u_type timeout w1
              | Inr r \<Rightarrow>
                  if status_code r \<noteq> 200 then
                    playlist_loop env rest uname pword m3u_type timeout
                      (snd (save_debug_response DEBUG_DIR env ''playlist_non200'' pl_url
                              (body_text r) w1))
                  else
                    (case stream_result r of
                       Inr txt \<Rightarrow>
                         if contains (upper txt) ''#EXTM3U''
                         then (Inr (PlaylistOk pl_url client txt), w1)
                         else playlist_loop env rest uname pword m3u_type timeout
                                (snd (save_debug_response DEBUG_DIR env ''playlist_nonm3u'' pl_url
                                        txt w1))
                     | Inl e \<Rightarrow>
                         playlist_loop env rest uname pword m3u_type timeout
                           (snd (save_debug_response DEBUG_DIR env ''playlist_error'' pl_url
                                   (if body_text r \<noteq> [] then body_text r else exn_str e)
                                   w1)))))"

definition fetch_playlist_robust ::
  "env \<Rightarrow> string \<Rightarrow> string \<Rightarrow> string \<Rightarrow> string \<Rightarrow> nat \<Rightarrow> world \<Rightarrow>
   (exn + playlist_result) \<times> world" where
  "fetch_playlist_robust env address uname pword m3u_type timeout w =
     (case generate_endpoints address of
        Inl e \<Rightarrow> (Inl e, w)
      | Inr endpoints \<Rightarrow> playlist_loop env endpoints uname pword m3u_type timeout w)"

section \<open>Refreshing a saved server\<close>

definition DEFAULT_TIMEOUT :: nat where
  "DEFAULT_TIMEOUT = 20"

text \<open>\<open>data.get(key, {}) or {}\<close>: only a JSON object has \<open>get\<close>.\<close>

definition get_or_empty :: "json \<Rightarrow> string \<Rightarrow> exn + json" where
  "get_or_empty data k =
     (case data of
        JObj kvs \<Rightarrow> (let v = dict_get kvs k (JObj []) in Inr (if truthy v then v else JObj []))
      | _ \<Rightarrow> Inl AttributeError)"

text \<open>
  \<open>refresh_server\<close>, the same text in both files, over the file's own
  \<open>fetch_player_api_robust\<close>. \<open>servers[idx]\<close> raises \<open>IndexError\<close> out of range. The
  list loaded at the start is the one changed and saved. Console input and output are
  not modelled.
\<close>

definition refresh_with ::
  "(env \<Rightarrow> string \<Rightarrow> string \<Rightarrow> string \<Rightarrow> nat \<Rightarrow> world \<Rightarrow> (exn + api_result) \<times> world) \<Rightarrow>
   env \<Rightarrow> nat \<Rightarrow> world \<Rightarrow> (exn + unit) \<times> world" where
  "refresh_with fetch env idx w =
     (let servers = servers_file w
      in if length servers \<le> idx then (Inl IndexError, w)
         else
           (let s = servers ! idx
            in case fetch env (server_url s) (username s) (password s) DEFAULT_TIMEOUT w of
                 (Inl e, w1) \<Rightarrow> (Inl e, w1)
               | (Inr (ApiFailed tried), w1) \<Rightarrow>
                   (let s1 = s\<lparr>last_endpoint := None, last_client := None,
                                 last_check := Some (time_at env (clock_reads w1))\<rparr>
                    in (Inr (),
                        w1\<lparr>clock_reads := Suc (clock_reads w1),
                            servers_file := servers[idx := s1]\<rparr>))
               | (Inr (ApiOk endpoint client data), w1) \<Rightarrow>
                   (case get_or_empty data ''user_info'' of
                      Inl e \<Rightarrow> (Inl e, w1)
                    | Inr ui \<Rightarrow>
                        (case get_or_empty data ''server_info'' of
                           Inl e \<Rightarrow> (Inl e, w1)
                         | Inr si \<Rightarrow>
                             (let s1 = s\<lparr>user_info := ui, server_info := si,
                                           last_endpoint := Some endpoint,
                                           last_client := Some client,
                                           last_check := Some (time_at env (clock_reads w1))\<rparr>
                              in (Inr (),
                                  w1\<lparr>clock_reads := Suc (clock_reads w1),
                                      servers_file := servers[idx := s1]\<rparr>))))))"

definition refresh_server :: "env \<Rightarrow> nat \<Rightarrow> world \<Rightarrow> (exn + unit) \<times> world" where
  "refresh_server env idx w = refresh_with fetch_player_api_robust env idx w"

definition refresh_server_xtream :: "env \<Rightarrow> nat \<Rightarrow> world \<Rightarrow> (exn + unit) \<times> world" where
  "refresh_server_xtream env idx w = refresh_with fetch_player_api_robust_xtream env idx w"

section \<open>What every parsed channel satisfies\<close>

text \<open>
  The shape of a channel that \<open>parse_m3u_to_json\<close> returns: all four fields present;
  title and URL stripped and within one line; the duration made of \<open>[-0-9]\<close>; attribute
  keys distinct, non-empty and made of key characters; attribute values free of double
  quotes, commas and line boundaries; the URL not starting with \<open>#\<close>.
\<close>

definition parsed_channel :: "channel \<Rightarrow> bool" where
  "parsed_channel ch =
     (\<exists>t d a u.
        title ch = Some t \<and> duration ch = Some d \<and> attrs ch = Some a \<and> url ch = Some u \<and>
        strip t = t \<and> (\<forall>c \<in> set t. \<not> is_linebreak c) \<and>
        (\<forall>c \<in> set d. is_dur_char c) \<and>
        distinct (map fst a) \<and>
        (\<forall>kv \<in> set a. fst kv \<noteq> [] \<and> (\<forall>c \<in> set (fst kv). is_key_char c) \<and>
           (\<forall>c \<in> set (snd kv). c \<noteq> DQUOTE \<and> c \<noteq> CHR '','' \<and> \<not> is_linebreak c)) \<and>
        strip u = u \<and> \<not> startswith u ''#'' \<and> (\<forall>c \<in> set u. \<not> is_linebreak c))"

text \<open>
  The part of the line before the comma that \<open>build_extinf_line\<close> writes for a duration
  and for attributes whose values have no double quote.
\<close>

definition rendered_header :: "string \<Rightarrow> (string \<times> string) list \<Rightarrow> string" where
  "rendered_header d a =
     ''#EXTINF:'' @ d @
     (if a = [] then []
      else '' '' @ join '' '' (map (\<lambda>kv. fst kv @ [CHR ''='', DQUOTE] @ snd kv @ [DQUOTE]) a))"

section \<open>Properties of the endpoint generator\<close>

lemma uniq_loop_fresh:
  "distinct us \<Longrightarrow> set us \<inter> seen = {} \<Longrightarrow> uniq_loop us seen acc = acc @ us"
  by (induction us arbitrary: seen acc) auto

lemma rstrip_chars_id:
  "s \<noteq> [] \<Longrightarrow> last s \<notin> set chars \<Longrightarrow> rstrip_chars chars s = s"
  by (cases s rule: rev_cases) (auto simp: rstrip_chars_def)

lemma rstrip_chars_last:
  "rstrip_chars chars s = [] \<or> last (rstrip_chars chars s) \<notin> set chars"
proof -
  have "dropWhile (\<lambda>c. c \<in> set chars) (rev s) = [] \<or>
        hd (dropWhile (\<lambda>c. c \<in> set chars) (rev s)) \<notin> set chars"
    using hd_dropWhile[of "\<lambda>c. c \<in> set chars" "rev s"] by blast
  then show ?thesis
    by (auto simp: rstrip_chars_def last_rev)
qed

lemma normalize_address_last:
  "normalize_address str_strip b = [] \<or> last (normalize_address str_strip b) \<noteq> CHR ''/''"
  using rstrip_chars_last[of "''/''" "str_strip b"] by (simp add: normalize_address_def)

lemma split1_http: "split1 ''://'' (''http://'' @ r) = [''http'', r]"
  by (simp add: split1_def startswith_def)

lemma split1_https: "split1 ''://'' (''https://'' @ r) = [''https'', r]"
  by (simp add: split1_def startswith_def)

lemma startswith_append: "startswith s p \<longleftrightarrow> (\<exists>r. s = p @ r)"
  unfolding startswith_def
  by (metis append_eq_conv_conj append_take_drop_id)

lemma schemes_and_host_cases:
  "schemes_and_host s =
     (if startswith s ''http://'' then Inr ([''http'', ''https''], drop 7 s)
      else if startswith s ''https://'' then Inr ([''https'', ''http''], drop 8 s)
      else Inr ([''http'', ''https''], s))"
proof -
  have a: "schemes_and_host (''http://'' @ r) = Inr ([''http'', ''https''], r)" for r
    unfolding schemes_and_host_def split1_http by (simp add: startswith_def)
  have b: "schemes_and_host (''https://'' @ r) = Inr ([''https'', ''http''], r)" for r
    unfolding schemes_and_host_def split1_https by (simp add: startswith_def)
  show ?thesis
  proof (cases "startswith s ''http://''")
    case True
    then obtain r where "s = ''http://'' @ r" using startswith_append by blast
    with a True show ?thesis by simp
  next
    case False
    show ?thesis
    proof (cases "startswith s ''https://''")
      case True
      then obtain r where "s = ''https://'' @ r" using startswith_append by blast
      with b False True show ?thesis by simp
    next
      case F2: False
      with False show ?thesis by (simp add: schemes_and_host_def)
    qed
  qed
qed

lemma schemes_and_host_suffix:
  assumes "schemes_and_host s = Inr (schemes, host)"
  shows "(schemes = [''http'', ''https''] \<or> schemes = [''https'', ''http'']) \<and> (\<exists>n. host = drop n s)"
proof -
  have "host = drop 7 s \<or> host = drop 8 s \<or> host = drop 0 s"
    using assms by (auto simp: schemes_and_host_cases split: if_splits)
  moreover have "schemes = [''http'', ''https''] \<or> schemes = [''https'', ''http'']"
    using assms by (auto simp: schemes_and_host_cases split: if_splits)
  ultimately show ?thesis by blast
qed

lemma generate_endpoints_total: "\<exists>us. generate_endpoints b = Inr us"
  by (simp add: generate_endpoints_def generate_endpoints_with_def schemes_and_host_cases Let_def)

text \<open>
  C9. \<open>generate_endpoints\<close> of \<open>main.py\<close> and \<open>generate_endpoints\<close> of \<open>xtream.py\<close> are the
  same function: on every address they return the same candidates in the same order.
\<close>

theorem generate_endpoints_files_agree: "generate_endpoints_xtream b = generate_endpoints b"
  unfolding generate_endpoints_xtream_def generate_endpoints_def generate_endpoints_with_def
    normalize_address_def schemes_and_host_def common_ports_def candidates_def Let_def
  by (auto split: list.splits sum.splits)

text \<open>
  C5, as stated, fails on an address with a colon that introduces no port. The IPv6
  loopback address \<open>::1\<close> has neither a scheme nor a port; its colon is taken for the mark
  of a port, and two candidates come back instead of 14.
\<close>

theorem generate_endpoints_colon_counterexample:
  "generate_endpoints ''::1'' = Inr [''http://::1'', ''https://::1'']"
  by (simp add: generate_endpoints_def generate_endpoints_with_def normalize_address_def
      strip_def is_space_def rstrip_chars_def schemes_and_host_cases startswith_def
      common_ports_def candidates_def Let_def)

text \<open>
  C5, amended. Whatever \<open>str.strip\<close> removes: an address that, stripped of white space
  and of trailing slashes, starts with neither \<open>http://\<close> nor \<open>https://\<close>, and that has no
  colon or starts with \<open>[\<close>, yields exactly 14 candidates: \<open>http\<close> then \<open>https\<close>, each with
  no port, \<open>:80\<close>, \<open>:8080\<close>, \<open>:8000\<close>, \<open>:8081\<close>, \<open>:8443\<close>, \<open>:443\<close>, in that order, pairwise
  distinct, none ending in a slash.
\<close>

theorem generate_endpoints_no_scheme_no_port:
  assumes "\<not> startswith (normalize_address str_strip b) ''http://''"
      and "\<not> startswith (normalize_address str_strip b) ''https://''"
      and colon: "CHR '':'' \<notin> set (normalize_address str_strip b) \<or>
                  startswith (normalize_address str_strip b) ''[''"
  shows "\<exists>us. generate_endpoints_with str_strip b = Inr us \<and> length us = 14 \<and> distinct us \<and>
           (\<forall>u \<in> set us. u \<noteq> [] \<and> last u \<noteq> CHR ''/'') \<and>
           us = (let h = normalize_address str_strip b in
                 [rstrip_chars ''/'' (''http://'' @ h), ''http://'' @ h @ '':80'',
                  ''http://'' @ h @ '':8080'', ''http://'' @ h @ '':8000'',
                  ''http://'' @ h @ '':8081'', ''http://'' @ h @ '':8443'',
                  ''http://'' @ h @ '':443'',
                  rstrip_chars ''/'' (''https://'' @ h), ''https://'' @ h @ '':80'',
                  ''https://'' @ h @ '':8080'', ''https://'' @ h @ '':8000'',
                  ''https://'' @ h @ '':8081'', ''https://'' @ h @ '':8443'',
                  ''https://'' @ h @ '':443''])"
proof -
  let ?h = "normalize_address str_strip b"
  have sh: "schemes_and_host ?h = Inr ([''http'', ''https''], ?h)"
    using assms by (simp add: schemes_and_host_cases)
  have ports: "common_ports ?h = [[], '':80'', '':8080'', '':8000'', '':8081'', '':8443'', '':443'']"
    using colon by (simp add: common_ports_def)
  have r: "rstrip_chars ''/'' (sc @ ''://'' @ ?h @ p) = sc @ ''://'' @ ?h @ p"
    if "p \<noteq> []" "last p \<noteq> CHR ''/''" for sc p
    by (rule rstrip_chars_id) (use that in auto)
  have first: "rstrip_chars ''/'' (sc @ ''://'' @ ?h) =
      (if ?h = [] then sc @ '':'' else sc @ ''://'' @ ?h)" if "CHR ''/'' \<notin> set sc" for sc
  proof (cases "?h = []")
    case True
    then show ?thesis using that by (simp add: rstrip_chars_def)
  next
    case False
    then have "last ?h \<noteq> CHR ''/''" using normalize_address_last[of str_strip b] by simp
    then show ?thesis using False by (simp add: rstrip_chars_id)
  qed
  let ?us = "candidates [''http'', ''https''] ?h (common_ports ?h)"
  have us: "?us =
     [if ?h = [] then ''http:'' else ''http://'' @ ?h, ''http://'' @ ?h @ '':80'',
      ''http://'' @ ?h @ '':8080'', ''http://'' @ ?h @ '':8000'',
      ''http://'' @ ?h @ '':8081'', ''http://'' @ ?h @ '':8443'',
      ''http://'' @ ?h @ '':443'',
      if ?h = [] then ''https:'' else ''https://'' @ ?h, ''https://'' @ ?h @ '':80'',
      ''https://'' @ ?h @ '':8080'', ''https://'' @ ?h @ '':8000'',
      ''https://'' @ ?h @ '':8081'', ''https://'' @ ?h @ '':8443'',
      ''https://'' @ ?h @ '':443'']"
    unfolding candidates_def ports
    using r[of "'':80''" "''http''"] r[of "'':8080''" "''http''"] r[of "'':8000''" "''http''"]
      r[of "'':8081''" "''http''"] r[of "'':8443''" "''http''"] r[of "'':443''" "''http''"]
      r[of "'':80''" "''https''"] r[of "'':8080''" "''https''"] r[of "'':8000''" "''https''"]
      r[of "'':8081''" "''https''"] r[of "'':8443''" "''https''"] r[of "'':443''" "''https''"]
      first[of "''http''"] first[of "''https''"]
    by simp
  have d: "distinct ?us" unfolding us by (cases "?h = []") simp_all
  have len: "length ?us = 14" unfolding us by simp
  have nt: "\<forall>u \<in> set ?us. u \<noteq> [] \<and> last u \<noteq> CHR ''/''"
    unfolding us using normalize_address_last[of str_strip b] by (cases "?h = []") simp_all
  have ge: "generate_endpoints_with str_strip b = Inr ?us"
    unfolding generate_endpoints_with_def Let_def sh
    using uniq_loop_fresh[OF d, of "{}" "[]"] by simp
  have ex: "?us = (let h = normalize_address str_strip b in
                 [rstrip_chars ''/'' (''http://'' @ h), ''http://'' @ h @ '':80'',
                  ''http://'' @ h @ '':8080'', ''http://'' @ h @ '':8000'',
                  ''http://'' @ h @ '':8081'', ''http://'' @ h @ '':8443'',
                  ''http://'' @ h @ '':443'',
                  rstrip_chars ''/'' (''https://'' @ h), ''https://'' @ h @ '':80'',
                  ''https://'' @ h @ '':8080'', ''https://'' @ h @ '':8000'',
                  ''https://'' @ h @ '':8081'', ''https://'' @ h @ '':8443'',
                  ''https://'' @ h @ '':443''])"
    unfolding us Let_def using first[of "''http''"] first[of "''https''"] by simp
  show ?thesis using ge len d nt ex by blast
qed

theorem generate_endpoints_no_scheme_no_port_witness:
  "CHR '':'' \<notin> set (normalize_address strip ''example.com/'') \<and>
   generate_endpoints ''example.com/'' =
     Inr [''http://example.com'', ''http://example.com:80'', ''http://example.com:8080'',
          ''http://example.com:8000'', ''http://example.com:8081'', ''http://example.com:8443'',
          ''http://example.com:443'',
          ''https://example.com'', ''https://example.com:80'', ''https://example.com:8080'',
          ''https://example.com:8000'', ''https://example.com:8081'', ''https://example.com:8443'',
          ''https://example.com:443'']"
proof -
  have n: "normalize_address strip ''example.com/'' = ''example.com''"
    by (simp add: normalize_address_def strip_def is_space_def rstrip_chars_def)
  have h1: "\<not> startswith (normalize_address strip ''example.com/'') ''http://''"
    and h2: "\<not> startswith (normalize_address strip ''example.com/'') ''https://''"
    and h3: "CHR '':'' \<notin> set (normalize_address strip ''example.com/'') \<or>
             startswith (normalize_address strip ''example.com/'') ''[''"
    unfolding n by (simp_all add: startswith_def)
  show ?thesis
    using generate_endpoints_no_scheme_no_port [OF h1 h2 h3]
    by (simp add: n rstrip_chars_def Let_def generate_endpoints_def)
qed

text \<open>
  C6, as stated, fails on a bracketed host: \<open>[::1]:8080\<close> carries the port 8080, yet the
  port list is still appended and 14 candidates come back.
\<close>

theorem generate_endpoints_bracket_port_counterexample:
  "generate_endpoints ''[::1]:8080'' =
     Inr [''http://[::1]:8080'', ''http://[::1]:8080:80'', ''http://[::1]:8080:8080'',
          ''http://[::1]:8080:8000'', ''http://[::1]:8080:8081'', ''http://[::1]:8080:8443'',
          ''http://[::1]:8080:443'',
          ''https://[::1]:8080'', ''https://[::1]:8080:80'', ''https://[::1]:8080:8080'',
          ''https://[::1]:8080:8000'', ''https://[::1]:8080:8081'', ''https://[::1]:8080:8443'',
          ''https://[::1]:8080:443'']"
  by (simp add: generate_endpoints_def generate_endpoints_with_def normalize_address_def
      strip_def is_space_def rstrip_chars_def schemes_and_host_cases startswith_def
      common_ports_def candidates_def Let_def)

text \<open>
  C6, amended. Whatever \<open>str.strip\<close> removes: let \<open>s\<close> be the address stripped of white
  space and of trailing slashes, and the host what is left of \<open>s\<close> after a leading
  \<open>http://\<close> or \<open>https://\<close>. When the host has a colon and does not start with \<open>[\<close>,
  exactly two candidates come back: the two schemes (the given one first, \<open>http\<close> first
  when none is given) against that exact host, with no port appended.
\<close>

theorem generate_endpoints_explicit_port:
  assumes s: "s = normalize_address str_strip b"
      and host: "host = (if startswith s ''http://'' then drop 7 s
                         else if startswith s ''https://'' then drop 8 s else s)"
      and colon: "CHR '':'' \<in> set host"
      and bracket: "\<not> startswith host ''[''"
  shows "generate_endpoints_with str_strip b =
           Inr (if startswith s ''https://''
                then [''https://'' @ host, ''http://'' @ host]
                else [''http://'' @ host, ''https://'' @ host])"
proof -
  define schemes where
    "schemes = (if startswith s ''https://'' then [''https'', ''http''] else [''http'', ''https''])"
  have excl: "\<not> (startswith s ''http://'' \<and> startswith s ''https://'')"
    by (auto simp: startswith_append)
  have sh: "schemes_and_host s = Inr (schemes, host)"
    using excl by (auto simp: schemes_and_host_cases schemes_def host)
  have sch: "schemes = [''http'', ''https''] \<or> schemes = [''https'', ''http'']"
    by (simp add: schemes_def)
  obtain n where h: "host = drop n s"
    using schemes_and_host_suffix[OF sh] by blast
  from colon have ne: "host \<noteq> []" by auto
  with h have "n < length s" by simp
  then have "last host = last s" using h by (simp add: last_drop)
  moreover have "s \<noteq> []" using ne h by auto
  ultimately have l: "last host \<noteq> CHR ''/''"
    using normalize_address_last[of str_strip b] s by simp
  have r: "rstrip_chars ''/'' (sc @ ''://'' @ host) = sc @ ''://'' @ host" for sc
    by (rule rstrip_chars_id) (use ne l in auto)
  have c: "candidates schemes host (common_ports host) = map (\<lambda>scheme. scheme @ ''://'' @ host) schemes"
    using colon bracket r by (simp add: candidates_def common_ports_def)
  have d: "distinct (map (\<lambda>scheme. scheme @ ''://'' @ host) schemes)"
    using sch by auto
  have u: "uniq_loop (candidates schemes host (common_ports host)) {} [] =
      map (\<lambda>scheme. scheme @ ''://'' @ host) schemes"
    unfolding c using uniq_loop_fresh[OF d, of "{}" "[]"] by simp
  have "generate_endpoints_with str_strip b = Inr (map (\<lambda>scheme. scheme @ ''://'' @ host) schemes)"
    unfolding generate_endpoints_with_def Let_def s[symmetric] sh using u by simp
  then show ?thesis by (simp add: schemes_def)
qed

theorem generate_endpoints_explicit_port_witness:
  "normalize_address strip ''https://example.com:8080/'' = ''https://example.com:8080'' \<and>
   startswith ''https://example.com:8080'' ''https://'' \<and>
   \<not> startswith ''https://example.com:8080'' ''http://'' \<and>
   drop 8 ''https://example.com:8080'' = ''example.com:8080'' \<and>
   CHR '':'' \<in> set ''example.com:8080'' \<and> \<not> startswith ''example.com:8080'' ''['' \<and>
   generate_endpoints ''https://example.com:8080/'' =
     Inr [''https://example.com:8080'', ''http://example.com:8080'']"
proof -
  have n: "normalize_address strip ''https://example.com:8080/'' = ''https://example.com:8080''"
    by (simp add: normalize_address_def strip_def is_space_def rstrip_chars_def)
  have h1: "''example.com:8080'' =
      (if startswith ''https://example.com:8080'' ''http://'' then drop 7 ''https://example.com:8080''
       else if startswith ''https://example.com:8080'' ''https://''
            then drop 8 ''https://example.com:8080'' else ''https://example.com:8080'')"
    by (simp add: startswith_def)
  have h2: "CHR '':'' \<in> set ''example.com:8080''" by simp
  have h3: "\<not> startswith ''example.com:8080'' ''[''" by (simp add: startswith_def)
  show ?thesis
    using generate_endpoints_explicit_port [OF n[symmetric] h1 h2 h3] n h2 h3
    by (simp add: startswith_def generate_endpoints_def)
qed

section \<open>Properties of the filter\<close>

lemma contains_iff: "contains s p \<longleftrightarrow> (\<exists>a b. s = a @ p @ b)"
proof (induction s)
  case Nil
  show ?case by auto
next
  case (Cons c cs)
  have "(\<exists>a b. c # cs = a @ p @ b) \<longleftrightarrow> (\<exists>b. c # cs = p @ b) \<or> (\<exists>a b. cs = a @ p @ b)"
  proof
    assume "\<exists>a b. c # cs = a @ p @ b"
    then obtain a b where ab: "c # cs = a @ p @ b" by blast
    show "(\<exists>b. c # cs = p @ b) \<or> (\<exists>a b. cs = a @ p @ b)"
    proof (cases a)
      case Nil
      with ab show ?thesis by auto
    next
      case (Cons x a')
      with ab have "cs = a' @ p @ b" by simp
      then show ?thesis by blast
    qed
  next
    assume "(\<exists>b. c # cs = p @ b) \<or> (\<exists>a b. cs = a @ p @ b)"
    then show "\<exists>a b. c # cs = a @ p @ b"
    proof
      assume "\<exists>b. c # cs = p @ b"
      then obtain b where "c # cs = [] @ p @ b" by auto
      then show ?thesis by blast
    next
      assume "\<exists>a b. cs = a @ p @ b"
      then obtain a b where "c # cs = (c # a) @ p @ b" by auto
      then show ?thesis by blast
    qed
  qed
  moreover have "startswith (c # cs) p \<longleftrightarrow> (\<exists>b. c # cs = p @ b)"
    unfolding startswith_def by (metis append_eq_conv_conj append_take_drop_id)
  ultimately show ?case using Cons.IH by simp
qed

lemma filter_loop_filter:
  "filter_loop str_lower chs field kw out =
     out @ filter (\<lambda>ch. contains (str_lower
             (if field = ''title'' then (case title ch of None \<Rightarrow> [] | Some t \<Rightarrow> t)
              else (case map_of (case attrs ch of None \<Rightarrow> [] | Some a \<Rightarrow> a)
                          (if field = ''group'' then ''group-title'' else field) of
                      None \<Rightarrow> [] | Some v \<Rightarrow> v))) kw) chs"
proof (induction chs arbitrary: out)
  case Nil
  show ?case by simp
next
  case (Cons ch chs)
  consider (t) "field = ''title''" | (g) "field \<noteq> ''title''" "field = ''group''"
    | (o) "field \<noteq> ''title''" "field \<noteq> ''group''"
    by blast
  then show ?case
  proof cases
    case t
    then show ?thesis using Cons.IH by simp
  next
    case g
    then show ?thesis using Cons.IH by (simp add: dict_get_def Let_def)
  next
    case o
    then show ?thesis using Cons.IH by (simp add: dict_get_def Let_def)
  qed
qed

text \<open>
  C8, as stated, fails for a keyword with white space around it: the keyword is stripped
  before the test, so \<open>" news"\<close> selects a record titled \<open>News\<close>, whose title does not
  contain \<open>" news"\<close> in any letter case. The input is ASCII, where \<open>strip\<close> and \<open>lower\<close> of
  this theory are \<open>str.strip\<close> and \<open>str.lower\<close>.
\<close>

theorem filter_channels_keyword_counterexample:
  "filter_channels strip lower
     [\<lparr>title = Some ''News'', duration = Some ''-1'', attrs = Some [],
       url = Some ''http://x/a.ts'', raw_extinf = Some ''#EXTINF:-1,News''\<rparr>]
     ''title'' '' news'' =
     [\<lparr>title = Some ''News'', duration = Some ''-1'', attrs = Some [],
       url = Some ''http://x/a.ts'', raw_extinf = Some ''#EXTINF:-1,News''\<rparr>] \<and>
   \<not> contains (lower ''News'') (lower '' news'')"
  by (simp add: filter_channels_def strip_def is_space_def lower_def lower_char_def
      startswith_def)

text \<open>
  C8, amended. Whatever \<open>str.strip\<close> and \<open>str.lower\<close> do: with an empty keyword
  \<open>filter_channels\<close> returns the channels as they are. With a non-empty keyword it
  returns, in their order, the records whose selected field (the title for \<open>title\<close>, the
  attribute \<open>group-title\<close> for \<open>group\<close>, otherwise the attribute named by the field; the
  empty string when missing), lower-cased by \<open>str.lower\<close>, has as a substring the keyword
  \<^emph>\<open>stripped by\<close> \<open>str.strip\<close> and then lower-cased by \<open>str.lower\<close>.
\<close>

theorem filter_channels_stripped_keyword:
  "filter_channels str_strip str_lower channels field keyword =
     (if keyword = [] then channels
      else filter (\<lambda>ch. \<exists>a b.
             str_lower
               (if field = ''title'' then (case title ch of None \<Rightarrow> [] | Some t \<Rightarrow> t)
                else (case map_of (case attrs ch of None \<Rightarrow> [] | Some a \<Rightarrow> a)
                            (if field = ''group'' then ''group-title'' else field) of
                        None \<Rightarrow> [] | Some v \<Rightarrow> v)) =
             a @ str_lower (str_strip keyword) @ b) channels)"
  by (simp add: filter_channels_def filter_loop_filter contains_iff)

theorem filter_channels_stripped_keyword_witness:
  "filter (\<lambda>ch. \<exists>a b.
       lower (case map_of (case attrs ch of None \<Rightarrow> [] | Some a \<Rightarrow> a) ''group-title'' of
                None \<Rightarrow> [] | Some v \<Rightarrow> v) =
       a @ lower (strip ''Sports '') @ b)
     [\<lparr>title = Some ''A'', duration = Some ''-1'', attrs = Some [(''group-title'', ''News'')],
       url = Some ''http://x/a'', raw_extinf = None\<rparr>,
      \<lparr>title = Some ''B'', duration = Some ''-1'',
       attrs = Some [(''tvg-id'', ''7''), (''group-title'', ''World SPORTS HD'')],
       url = Some ''http://x/b'', raw_extinf = None\<rparr>] =
     [\<lparr>title = Some ''B'', duration = Some ''-1'',
       attrs = Some [(''tvg-id'', ''7''), (''group-title'', ''World SPORTS HD'')],
       url = Some ''http://x/b'', raw_extinf = None\<rparr>]"
proof -
  let ?a = "\<lparr>title = Some ''A'', duration = Some ''-1'', attrs = Some [(''group-title'', ''News'')],
       url = Some ''http://x/a'', raw_extinf = None\<rparr>"
  let ?b = "\<lparr>title = Some ''B'', duration = Some ''-1'',
       attrs = Some [(''tvg-id'', ''7''), (''group-title'', ''World SPORTS HD'')],
       url = Some ''http://x/b'', raw_extinf = None\<rparr>"
  have e: "filter_channels strip lower [?a, ?b] ''group'' ''Sports '' = [?b]"
    by (simp add: filter_channels_def strip_def is_space_def lower_def lower_char_def
        startswith_def dict_get_def)
  show ?thesis
    using filter_channels_stripped_keyword [of strip lower "[?a, ?b]" "''group''" "''Sports ''"]
    unfolding e by simp
qed

section \<open>Properties of the playlist codec\<close>

subsection \<open>Stripping white space\<close>

lemma strip_Nil: "strip [] = []"
  by (simp add: strip_def)

lemma strip_subset: "set (strip s) \<subseteq> set s"
proof
  fix c assume "c \<in> set (strip s)"
  then have "c \<in> set (dropWhile is_space (rev (dropWhile is_space s)))"
    by (simp add: strip_def)
  then have "c \<in> set (rev (dropWhile is_space s))" by (rule set_dropWhileD)
  then have "c \<in> set (dropWhile is_space s)" by simp
  then show "c \<in> set s" by (rule set_dropWhileD)
qed

lemma strip_id:
  assumes "s \<noteq> []" "\<not> is_space (hd s)" "\<not> is_space (last s)"
  shows "strip s = s"
proof -
  from assms(1,2) have a: "dropWhile is_space s = s"
    by (cases s) auto
  from assms(1,3) have b: "dropWhile is_space (rev s) = rev s"
    by (cases s rule: rev_cases) auto
  show ?thesis by (simp add: strip_def a b)
qed

lemma last_dropWhile: "dropWhile P xs \<noteq> [] \<Longrightarrow> last (dropWhile P xs) = last xs"
proof -
  assume ne: "dropWhile P xs \<noteq> []"
  have e: "dropWhile P xs = drop (length (takeWhile P xs)) xs"
    by (rule dropWhile_eq_drop)
  with ne have "length (takeWhile P xs) < length xs" by simp
  then show ?thesis unfolding e by (rule last_drop)
qed

lemma strip_ends:
  assumes "strip s \<noteq> []"
  shows "\<not> is_space (hd (strip s)) \<and> \<not> is_space (last (strip s))"
proof -
  let ?a = "dropWhile is_space s"
  let ?b = "dropWhile is_space (rev ?a)"
  have sb: "strip s = rev ?b" by (simp add: strip_def)
  with assms have bne: "?b \<noteq> []" by simp
  then have hb: "\<not> is_space (hd ?b)" by (rule hd_dropWhile)
  have "dropWhile is_space (rev a) \<noteq> [] \<Longrightarrow> a \<noteq> []" for a :: string
    by auto
  from this[OF bne] have ane: "?a \<noteq> []" .
  then have ha: "\<not> is_space (hd ?a)" by (rule hd_dropWhile)
  have "last ?b = last (rev ?a)" using bne by (rule last_dropWhile)
  also have "\<dots> = hd ?a" using ane by (simp add: last_rev)
  finally have lb: "last ?b = hd ?a" .
  have "hd (strip s) = last ?b" using bne by (simp add: sb hd_rev)
  moreover have "last (strip s) = hd ?b" using bne by (simp add: sb last_rev)
  ultimately show ?thesis using ha hb lb by simp
qed

lemma strip_idem: "strip (strip s) = strip s"
proof (cases "strip s = []")
  case True
  then show ?thesis by (simp add: strip_Nil)
next
  case False
  with strip_ends[OF False] show ?thesis by (intro strip_id) simp_all
qed

lemma stripped_ends: "strip t = t \<Longrightarrow> t \<noteq> [] \<Longrightarrow> \<not> is_space (hd t) \<and> \<not> is_space (last t)"
  using strip_ends[of t] by simp

subsection \<open>Splitting into lines\<close>

declare splitlines.simps [simp del]

lemma splitlines_no_break: "l \<in> set (splitlines s) \<Longrightarrow> c \<in> set l \<Longrightarrow> \<not> is_linebreak c"
proof (induction s arbitrary: l rule: splitlines.induct)
  case 1
  then show ?case by (simp add: splitlines.simps)
next
  case (2 x xs)
  let ?line = "takeWhile (\<lambda>x. \<not> is_linebreak x) (x # xs)"
  let ?rest = "dropWhile (\<lambda>x. \<not> is_linebreak x) (x # xs)"
  have tl: "c \<in> set ?line \<Longrightarrow> \<not> is_linebreak c"
    by (rule set_takeWhileD[THEN conjunct2])
  show ?case
  proof (cases ?rest)
    case Nil
    with "2.prems" have "l = ?line"
      by (simp add: splitlines.simps(2)[of x xs] Let_def)
    with tl "2.prems" show ?thesis by simp
  next
    case (Cons b rest')
    let ?next = "if b = CR \<and> startswith rest' [LF] then tl rest' else rest'"
    from Cons "2.prems" have "l = ?line \<or> l \<in> set (splitlines ?next)"
      by (simp add: splitlines.simps(2)[of x xs] Let_def)
    then show ?thesis
    proof
      assume "l = ?line"
      with tl "2.prems" show ?thesis by simp
    next
      assume "l \<in> set (splitlines ?next)"
      then show ?thesis
        using "2.IH"[OF refl refl Cons] "2.prems"(2) by blast
    qed
  qed
qed

lemma splitlines_line:
  assumes "\<forall>c \<in> set l. \<not> is_linebreak c"
  shows "splitlines (l @ LF # rest) = l # splitlines rest"
proof -
  have lb: "is_linebreak LF" by (simp add: is_linebreak_def)
  have t: "takeWhile (\<lambda>x. \<not> is_linebreak x) (l @ LF # rest) = l"
    using assms lb by (simp add: takeWhile_append2)
  have d: "dropWhile (\<lambda>x. \<not> is_linebreak x) (l @ LF # rest) = LF # rest"
    using assms lb by (simp add: dropWhile_append2)
  obtain x xs where e: "l @ LF # rest = x # xs" by (cases l) auto
  show ?thesis
    unfolding e splitlines.simps(2)[of x xs] Let_def
    unfolding e[symmetric] t d by simp
qed

lemma rstrip_LF_id: "LF \<notin> set l \<Longrightarrow> rstrip_chars [LF] l = l"
  by (cases l rule: rev_cases) (auto simp: rstrip_chars_def)

subsection \<open>Insertion-ordered dicts\<close>

lemma dict_set_fresh: "k \<notin> fst ` set d \<Longrightarrow> dict_set d k v = d @ [(k, v)]"
  by (induction d) auto

lemma dict_set_keys:
  "map fst (dict_set d k v) = (if k \<in> fst ` set d then map fst d else map fst d @ [k])"
proof (induction d)
  case Nil
  show ?case by simp
next
  case (Cons p d)
  obtain k' v' where p: "p = (k', v')" by (cases p)
  show ?case
  proof (cases "k' = k")
    case True
    then show ?thesis unfolding p by simp
  next
    case False
    then have "(k \<in> fst ` set ((k', v') # d)) = (k \<in> fst ` set d)" by auto
    with False Cons.IH show ?thesis unfolding p by simp
  qed
qed

lemma dict_set_subset: "set (dict_set d k v) \<subseteq> insert (k, v) (set d)"
proof (induction d)
  case Nil
  show ?case by simp
next
  case (Cons p d)
  obtain k' v' where p: "p = (k', v')" by (cases p)
  show ?case
  proof (cases "k' = k")
    case True
    then show ?thesis unfolding p by auto
  next
    case False
    with Cons.IH show ?thesis unfolding p by auto
  qed
qed

lemma foldl_dict_set_props:
  "distinct (map fst acc) \<Longrightarrow>
   distinct (map fst (foldl (\<lambda>d (k, v). dict_set d k v) acc ps)) \<and>
   set (foldl (\<lambda>d (k, v). dict_set d k v) acc ps) \<subseteq> set acc \<union> set ps"
proof (induction ps arbitrary: acc)
  case Nil
  then show ?case by simp
next
  case (Cons p ps)
  obtain k v where p: "p = (k, v)" by (cases p)
  have d: "distinct (map fst (dict_set acc k v))"
    using Cons.prems by (simp add: dict_set_keys)
  from Cons.IH[OF d] dict_set_subset[of acc k v] show ?case
    unfolding p by auto
qed

lemma dict_of_pairs_props:
  "distinct (map fst (dict_of_pairs ps)) \<and> set (dict_of_pairs ps) \<subseteq> set ps"
  using foldl_dict_set_props[of "[]" ps] by (simp add: dict_of_pairs_def)

lemma foldl_dict_set_distinct:
  "distinct (map fst (acc @ ps)) \<Longrightarrow> foldl (\<lambda>d (k, v). dict_set d k v) acc ps = acc @ ps"
proof (induction ps arbitrary: acc)
  case Nil
  then show ?case by simp
next
  case (Cons p ps)
  obtain k v where p: "p = (k, v)" by (cases p)
  from Cons.prems have "k \<notin> fst ` set acc" unfolding p by auto
  then have s: "dict_set acc k v = acc @ [(k, v)]" by (rule dict_set_fresh)
  have "distinct (map fst ((acc @ [(k, v)]) @ ps))" using Cons.prems unfolding p by simp
  from Cons.IH[OF this] show ?case unfolding p by (simp add: s)
qed

lemma dict_of_pairs_id: "distinct (map fst d) \<Longrightarrow> dict_of_pairs d = d"
  using foldl_dict_set_distinct[of "[]" d] by (simp add: dict_of_pairs_def)

subsection \<open>Character classes\<close>

lemma dur_char_key: "is_dur_char c \<Longrightarrow> is_key_char c"
  by (auto simp: is_dur_char_def is_key_char_def)

lemma key_char_consts:
  "\<not> is_key_char CHR ''#''" "\<not> is_key_char CHR '':''" "\<not> is_key_char CHR '' ''"
  "\<not> is_key_char CHR ''=''" "\<not> is_key_char CHR '',''" "\<not> is_key_char DQUOTE"
  by (simp_all add: is_key_char_def is_letter_def is_digit_def)

lemma key_char_letters:
  "is_key_char CHR ''E''" "is_key_char CHR ''X''" "is_key_char CHR ''T''"
  "is_key_char CHR ''I''" "is_key_char CHR ''N''" "is_key_char CHR ''F''"
  by (simp_all add: is_key_char_def is_letter_def is_digit_def)

lemma not_dur_space: "\<not> is_dur_char CHR '' ''" "\<not> is_dur_char CHR '',''"
  by (simp_all add: is_dur_char_def is_digit_def)

lemma linebreak_space: "is_linebreak c \<Longrightarrow> is_space c"
  by (auto simp: is_linebreak_def is_space_def)

subsection \<open>The attribute pattern\<close>

declare findall_attrs.simps [simp del]

lemma match_attr_props:
  assumes "match_attr s = Some ((k, v), rest)"
  shows "k \<noteq> [] \<and> (\<forall>c \<in> set k. is_key_char c) \<and> DQUOTE \<notin> set v \<and> LF \<notin> set v \<and>
         set v \<subseteq> set s \<and> set rest \<subseteq> set s"
proof -
  let ?r = "dropWhile is_key_char s"
  let ?body = "drop 2 ?r"
  let ?r2 = "dropWhile (\<lambda>c. c \<noteq> DQUOTE) ?body"
  from assms have k: "k = takeWhile is_key_char s" and kne: "k \<noteq> []"
    and v: "v = takeWhile (\<lambda>c. c \<noteq> DQUOTE) ?body" and lf: "LF \<notin> set v"
    and rest: "rest = tl ?r2" and r2: "?r2 \<noteq> []"
    by (auto simp: match_attr_def Let_def split: if_splits)
  have kk: "\<forall>c \<in> set k. is_key_char c"
    unfolding k using set_takeWhileD by fastforce
  have dq: "DQUOTE \<notin> set v"
    unfolding v using set_takeWhileD[of DQUOTE "\<lambda>c. c \<noteq> DQUOTE"] by blast
  have body: "set ?body \<subseteq> set s"
    using set_drop_subset[of 2 ?r] set_dropWhileD[of _ is_key_char s] by blast
  have vs: "set v \<subseteq> set s"
    unfolding v using set_takeWhileD[of _ "\<lambda>c. c \<noteq> DQUOTE" ?body] body by blast
  have "set rest \<subseteq> set ?r2" unfolding rest using r2 by (cases ?r2) auto
  also have "\<dots> \<subseteq> set ?body" using set_dropWhileD[of _ "\<lambda>c. c \<noteq> DQUOTE" ?body] by blast
  finally have rs: "set rest \<subseteq> set s" using body by blast
  show ?thesis using kne kk dq lf vs rs by blast
qed

lemma findall_attrs_props:
  "(k, v) \<in> set (findall_attrs s) \<Longrightarrow>
     k \<noteq> [] \<and> (\<forall>c \<in> set k. is_key_char c) \<and> DQUOTE \<notin> set v \<and> LF \<notin> set v \<and> set v \<subseteq> set s"
proof (induction s rule: findall_attrs.induct)
  case 1
  then show ?case by (simp add: findall_attrs.simps)
next
  case (2 c cs)
  show ?case
  proof (cases "match_attr (c # cs)")
    case None
    with "2.prems" have "(k, v) \<in> set (findall_attrs cs)"
      by (simp add: findall_attrs.simps(2)[of c cs])
    from "2.IH"(1)[OF None this] show ?thesis by auto
  next
    case (Some m)
    obtain k' v' rest where m: "m = ((k', v'), rest)" by (cases m) auto
    from Some m "2.prems" have "(k, v) = (k', v') \<or> (k, v) \<in> set (findall_attrs rest)"
      by (simp add: findall_attrs.simps(2)[of c cs])
    then show ?thesis
    proof
      assume "(k, v) = (k', v')"
      with match_attr_props[of "c # cs" k' v' rest] Some m show ?thesis by simp
    next
      assume a: "(k, v) \<in> set (findall_attrs rest)"
      have "set rest \<subseteq> set (c # cs)"
        using match_attr_props[of "c # cs" k' v' rest] Some m by simp
      with "2.IH"(2)[OF Some m[symmetric] a] show ?thesis by blast
    qed
  qed
qed

lemma takeWhile_run:
  "(\<forall>c \<in> set p. P c) \<Longrightarrow> s = [] \<or> \<not> P (hd s) \<Longrightarrow> takeWhile P (p @ s) = p"
  by (induction p) (auto simp: takeWhile_eq_Nil_iff)

lemma dropWhile_run:
  "(\<forall>c \<in> set p. P c) \<Longrightarrow> s = [] \<or> \<not> P (hd s) \<Longrightarrow> dropWhile P (p @ s) = s"
  by (induction p) (auto simp: dropWhile_eq_self_iff)

lemma findall_skip: "\<not> is_key_char c \<Longrightarrow> findall_attrs (c # cs) = findall_attrs cs"
  by (simp add: findall_attrs.simps(2)[of c cs] match_attr_def)

lemma findall_skip_run:
  assumes "\<forall>c \<in> set p. is_key_char c"
      and "s = [] \<or> (\<not> is_key_char (hd s) \<and> hd s \<noteq> CHR ''='')"
  shows "findall_attrs (p @ s) = findall_attrs s"
  using assms(1)
proof (induction p)
  case Nil
  show ?case by simp
next
  case (Cons x p)
  have tk: "takeWhile is_key_char ((x # p) @ s) = x # p"
    using Cons.prems assms(2) by (intro takeWhile_run) auto
  have dk: "dropWhile is_key_char ((x # p) @ s) = s"
    using Cons.prems assms(2) by (intro dropWhile_run) auto
  have "\<not> startswith s [CHR ''='', DQUOTE]"
    using assms(2) by (cases s) (auto simp: startswith_def)
  then have "match_attr ((x # p) @ s) = None"
    unfolding match_attr_def tk dk Let_def by simp
  then have "findall_attrs ((x # p) @ s) = findall_attrs (p @ s)"
    by (simp add: findall_attrs.simps(2)[of x "p @ s"])
  with Cons show ?case by simp
qed

lemma match_attr_rendered:
  assumes "k \<noteq> []" "\<forall>c \<in> set k. is_key_char c" "DQUOTE \<notin> set v" "LF \<notin> set v"
  shows "match_attr (k @ [CHR ''='', DQUOTE] @ v @ [DQUOTE] @ rest) = Some ((k, v), rest)"
proof -
  let ?s = "k @ [CHR ''='', DQUOTE] @ v @ [DQUOTE] @ rest"
  have tk: "takeWhile is_key_char ?s = k"
    using assms(2) key_char_consts by (intro takeWhile_run) auto
  have dk: "dropWhile is_key_char ?s = [CHR ''='', DQUOTE] @ v @ [DQUOTE] @ rest"
    using assms(2) key_char_consts by (intro dropWhile_run) auto
  have tv: "takeWhile (\<lambda>c. c \<noteq> DQUOTE) (v @ [DQUOTE] @ rest) = v"
    using assms(3) by (intro takeWhile_run) auto
  have dv: "dropWhile (\<lambda>c. c \<noteq> DQUOTE) (v @ [DQUOTE] @ rest) = [DQUOTE] @ rest"
    using assms(3) by (intro dropWhile_run) auto
  show ?thesis
    unfolding match_attr_def tk dk Let_def
    using assms(1,4) tv dv by (simp add: startswith_def)
qed

subsection \<open>Splitting at the first comma\<close>

lemma split_comma_props:
  "split_at_first '','' s = Some (a, b) \<Longrightarrow> s = a @ '','' @ b \<and> CHR '','' \<notin> set a"
proof (induction s arbitrary: a)
  case Nil
  then show ?case by simp
next
  case (Cons c cs)
  show ?case
  proof (cases "c = CHR '',''")
    case True
    with Cons.prems show ?thesis by (simp add: startswith_def)
  next
    case False
    with Cons.prems obtain a' where s: "split_at_first '','' cs = Some (a', b)" and a: "a = c # a'"
      by (auto simp: startswith_def)
    from Cons.IH[OF s] a False show ?thesis by simp
  qed
qed

lemma split_comma_none: "split_at_first '','' s = None \<Longrightarrow> CHR '','' \<notin> set s"
  by (induction s) (auto simp: startswith_def split: if_splits)

lemma split_comma_found:
  "CHR '','' \<notin> set a \<Longrightarrow> split_at_first '','' (a @ '','' @ b) = Some (a, b)"
  by (induction a) (auto simp: startswith_def)

subsection \<open>The channel built from a line\<close>

lemma match_duration_chars:
  "match_duration h = Some d \<Longrightarrow> \<forall>c \<in> set d. is_dur_char c"
  by (auto simp: match_duration_def split: if_splits dest: set_takeWhileD)

lemma extinf_channel_url: "url (extinf_channel ln u) = Some u"
  by (simp add: extinf_channel_def Let_def)

lemma extinf_channel_parsed:
  assumes ln: "\<forall>c \<in> set ln. \<not> is_linebreak c"
      and u: "strip u = u" "\<not> startswith u ''#''" "\<forall>c \<in> set u. \<not> is_linebreak c"
  shows "parsed_channel (extinf_channel ln u)"
proof -
  define parts where "parts = split1 '','' ln"
  define h where "h = parts ! 0"
  define t where "t = (if length parts = 2 then strip (parts ! 1) else [])"
  define d where "d = (case match_duration h of Some d \<Rightarrow> d | None \<Rightarrow> [])"
  define a where "a = dict_of_pairs (findall_attrs h)"
  have ch: "extinf_channel ln u =
      \<lparr>title = Some t, duration = Some d, attrs = Some a, url = Some u, raw_extinf = Some ln\<rparr>"
    by (simp add: extinf_channel_def Let_def parts_def h_def t_def d_def a_def)
  have ht: "set h \<subseteq> set ln \<and> CHR '','' \<notin> set h \<and> set t \<subseteq> set ln \<and> strip t = t"
  proof (cases "split_at_first '','' ln")
    case None
    then have "parts = [ln]" by (simp add: parts_def split1_def)
    then have "h = ln" "t = []" by (simp_all add: h_def t_def)
    with split_comma_none[OF None] show ?thesis by (simp add: strip_Nil)
  next
    case (Some ab)
    obtain x y where ab: "ab = (x, y)" by (cases ab)
    from Some ab have "parts = [x, y]" by (simp add: parts_def split1_def)
    then have hx: "h = x" and ty: "t = strip y" by (simp_all add: h_def t_def)
    from split_comma_props[OF Some[unfolded ab]] have l: "ln = x @ '','' @ y" and c: "CHR '','' \<notin> set x"
      by simp_all
    have "set (strip y) \<subseteq> set y" by (rule strip_subset)
    with l c hx ty show ?thesis by (auto simp: strip_idem)
  qed
  have tl: "\<forall>c \<in> set t. \<not> is_linebreak c" using ht ln by blast
  have dd: "\<forall>c \<in> set d. is_dur_char c"
    unfolding d_def using match_duration_chars[of h] by (cases "match_duration h") auto
  have ad: "distinct (map fst a)" unfolding a_def using dict_of_pairs_props by blast
  have av: "\<forall>kv \<in> set a. fst kv \<noteq> [] \<and> (\<forall>c \<in> set (fst kv). is_key_char c) \<and>
           (\<forall>c \<in> set (snd kv). c \<noteq> DQUOTE \<and> c \<noteq> CHR '','' \<and> \<not> is_linebreak c)"
  proof
    fix kv assume "kv \<in> set a"
    then have "kv \<in> set (findall_attrs h)" unfolding a_def using dict_of_pairs_props by blast
    then have "(fst kv, snd kv) \<in> set (findall_attrs h)" by simp
    from findall_attrs_props[OF this]
    have p: "fst kv \<noteq> []" "\<forall>c \<in> set (fst kv). is_key_char c" "DQUOTE \<notin> set (snd kv)"
      "set (snd kv) \<subseteq> set h" by simp_all
    have "\<forall>c \<in> set (snd kv). c \<noteq> DQUOTE \<and> c \<noteq> CHR '','' \<and> \<not> is_linebreak c"
      using p(3,4) ht ln by blast
    with p show "fst kv \<noteq> [] \<and> (\<forall>c \<in> set (fst kv). is_key_char c) \<and>
           (\<forall>c \<in> set (snd kv). c \<noteq> DQUOTE \<and> c \<noteq> CHR '','' \<and> \<not> is_linebreak c)" by blast
  qed
  show ?thesis
    unfolding parsed_channel_def ch using ht tl dd ad av u by simp
qed

subsection \<open>The look-ahead and the outer loop\<close>

declare parse_lines.simps [simp del]

lemma find_url_props:
  assumes "\<forall>l \<in> set ls. \<forall>c \<in> set l. \<not> is_linebreak c"
  shows "strip (fst (find_url ls)) = fst (find_url ls) \<and>
         \<not> startswith (fst (find_url ls)) ''#'' \<and>
         (\<forall>c \<in> set (fst (find_url ls)). \<not> is_linebreak c) \<and>
         set (snd (find_url ls)) \<subseteq> set ls \<and>
         (fst (find_url ls) = [] \<longrightarrow> snd (find_url ls) = [])"
  using assms
proof (induction ls)
  case Nil
  show ?case by (simp add: strip_Nil startswith_def)
next
  case (Cons l ls)
  show ?case
  proof (cases "strip l = [] \<or> startswith (strip l) ''#''")
    case True
    then have "find_url (l # ls) = find_url ls" by (auto simp: Let_def)
    with Cons show ?thesis by auto
  next
    case False
    then have f: "find_url (l # ls) = (strip l, ls)" by (auto simp: Let_def)
    have "\<forall>c \<in> set (strip l). \<not> is_linebreak c"
      using strip_subset[of l] Cons.prems by auto
    with False show ?thesis unfolding f by (auto simp: strip_idem)
  qed
qed

lemma parse_lines_parsed:
  assumes "\<forall>l \<in> set ls. \<forall>c \<in> set l. \<not> is_linebreak c"
  shows "(\<forall>ch \<in> set (parse_lines ls). parsed_channel ch) \<and>
         (\<forall>ch \<in> set (butlast (parse_lines ls)). url ch \<noteq> Some [])"
  using assms
proof (induction ls rule: parse_lines.induct)
  case 1
  show ?case by (simp add: parse_lines.simps)
next
  case (2 l ls)
  let ?ln = "strip l"
  have rest: "\<forall>l \<in> set ls. \<forall>c \<in> set l. \<not> is_linebreak c" using "2.prems" by simp
  consider (blank) "?ln = []" | (extinf) "?ln \<noteq> []" "startswith (upper ?ln) ''#EXTINF''"
    | (other) "?ln \<noteq> []" "\<not> startswith (upper ?ln) ''#EXTINF''" by blast
  then show ?case
  proof cases
    case blank
    then have "parse_lines (l # ls) = parse_lines ls"
      by (simp add: parse_lines.simps(2)[of l ls] Let_def)
    with "2.IH"(1)[OF refl blank rest] show ?thesis by simp
  next
    case other
    then have "parse_lines (l # ls) = parse_lines ls"
      by (simp add: parse_lines.simps(2)[of l ls] Let_def)
    with "2.IH"(3)[OF refl other rest] show ?thesis by simp
  next
    case extinf
    let ?u = "fst (find_url ls)"
    let ?rest = "snd (find_url ls)"
    have p: "parse_lines (l # ls) = extinf_channel ?ln ?u # parse_lines ?rest"
      using extinf by (simp add: parse_lines.simps(2)[of l ls] Let_def)
    note fu = find_url_props[OF rest]
    have lnl: "\<forall>c \<in> set ?ln. \<not> is_linebreak c"
      using strip_subset[of l] "2.prems" by auto
    have pc: "parsed_channel (extinf_channel ?ln ?u)"
      using lnl fu by (intro extinf_channel_parsed) simp_all
    have rest': "\<forall>l \<in> set ?rest. \<forall>c \<in> set l. \<not> is_linebreak c"
      using fu rest by blast
    note ih = "2.IH"(2)[OF refl extinf rest']
    have bl: "\<forall>ch \<in> set (butlast (extinf_channel ?ln ?u # parse_lines ?rest)). url ch \<noteq> Some []"
    proof (cases "parse_lines ?rest = []")
      case True
      then show ?thesis by simp
    next
      case False
      have "?u \<noteq> []"
      proof
        assume "?u = []"
        with fu have "?rest = []" by simp
        then have "parse_lines ?rest = []" by (simp add: parse_lines.simps)
        with False show False by simp
      qed
      with False ih show ?thesis by (simp add: extinf_channel_url)
    qed
    show ?thesis unfolding p using pc ih bl by simp
  qed
qed

subsection \<open>The rebuilt line of a parsed channel\<close>

lemma join_Cons: "join sep (x # xs) = (if xs = [] then x else x @ sep @ join sep xs)"
  by (cases xs) simp_all

lemma join_set: "set (join sep xs) \<subseteq> set sep \<union> (\<Union>x \<in> set xs. set x)"
  by (induction sep xs rule: join.induct) auto

lemma join_nonempty: "xs \<noteq> [] \<Longrightarrow> \<forall>x \<in> set xs. x \<noteq> [] \<Longrightarrow> join sep xs \<noteq> []"
  by (cases xs) (auto simp: join_Cons)

lemma replace_char_absent: "a \<notin> set s \<Longrightarrow> replace_char a b s = s"
  by (induction s) (auto simp: replace_char_def)

lemma findall_rendered:
  assumes "\<forall>kv \<in> set a. fst kv \<noteq> [] \<and> (\<forall>c \<in> set (fst kv). is_key_char c) \<and>
             DQUOTE \<notin> set (snd kv) \<and> LF \<notin> set (snd kv)"
  shows "findall_attrs (join '' '' (map (\<lambda>kv. fst kv @ [CHR ''='', DQUOTE] @ snd kv @ [DQUOTE]) a)) = a"
  using assms
proof (induction a)
  case Nil
  show ?case by (simp add: findall_attrs.simps)
next
  case (Cons kv a)
  let ?render = "\<lambda>kv. fst kv @ [CHR ''='', DQUOTE] @ snd kv @ [DQUOTE]"
  let ?rest = "if a = [] then [] else '' '' @ join '' '' (map ?render a)"
  from Cons.prems have kv: "fst kv \<noteq> []" "\<forall>c \<in> set (fst kv). is_key_char c"
    "DQUOTE \<notin> set (snd kv)" "LF \<notin> set (snd kv)" by simp_all
  have j: "join '' '' (map ?render (kv # a)) = fst kv @ [CHR ''='', DQUOTE] @ snd kv @ [DQUOTE] @ ?rest"
    by (simp add: join_Cons)
  have m: "match_attr (fst kv @ [CHR ''='', DQUOTE] @ snd kv @ [DQUOTE] @ ?rest) =
             Some ((fst kv, snd kv), ?rest)"
    using kv by (rule match_attr_rendered)
  obtain x xs where e: "fst kv @ [CHR ''='', DQUOTE] @ snd kv @ [DQUOTE] @ ?rest = x # xs"
    using kv(1) by (cases "fst kv") auto
  have f: "findall_attrs (fst kv @ [CHR ''='', DQUOTE] @ snd kv @ [DQUOTE] @ ?rest) =
             (fst kv, snd kv) # findall_attrs ?rest"
    unfolding e findall_attrs.simps(2)[of x xs] unfolding e[symmetric] m by simp
  have r: "findall_attrs ?rest = a"
  proof (cases "a = []")
    case True
    then show ?thesis by (simp add: findall_attrs.simps)
  next
    case False
    have "findall_attrs ('' '' @ join '' '' (map ?render a)) = findall_attrs (join '' '' (map ?render a))"
      using key_char_consts(3) by (simp add: findall_skip)
    with False Cons.IH Cons.prems show ?thesis by simp
  qed
  show ?case unfolding j f r by simp
qed

text \<open>The header and the line that \<open>build_extinf_line\<close> makes of a parsed channel.\<close>

lemma parsed_channel_fields:
  assumes "parsed_channel ch"
  shows "title ch = Some (the (title ch))" "duration ch = Some (the (duration ch))"
    "attrs ch = Some (the (attrs ch))" "url ch = Some (the (url ch))"
    "strip (the (title ch)) = the (title ch)"
    "\<forall>c \<in> set (the (title ch)). \<not> is_linebreak c"
    "\<forall>c \<in> set (the (duration ch)). is_dur_char c"
    "distinct (map fst (the (attrs ch)))"
    "\<forall>kv \<in> set (the (attrs ch)). fst kv \<noteq> [] \<and> (\<forall>c \<in> set (fst kv). is_key_char c) \<and>
           (\<forall>c \<in> set (snd kv). c \<noteq> DQUOTE \<and> c \<noteq> CHR '','' \<and> \<not> is_linebreak c)"
    "strip (the (url ch)) = the (url ch)" "\<not> startswith (the (url ch)) ''#''"
    "\<forall>c \<in> set (the (url ch)). \<not> is_linebreak c"
proof -
  from assms obtain t d a u where
    f: "title ch = Some t \<and> duration ch = Some d \<and> attrs ch = Some a \<and> url ch = Some u \<and>
        strip t = t \<and> (\<forall>c \<in> set t. \<not> is_linebreak c) \<and>
        (\<forall>c \<in> set d. is_dur_char c) \<and>
        distinct (map fst a) \<and>
        (\<forall>kv \<in> set a. fst kv \<noteq> [] \<and> (\<forall>c \<in> set (fst kv). is_key_char c) \<and>
           (\<forall>c \<in> set (snd kv). c \<noteq> DQUOTE \<and> c \<noteq> CHR '','' \<and> \<not> is_linebreak c)) \<and>
        strip u = u \<and> \<not> startswith u ''#'' \<and> (\<forall>c \<in> set u. \<not> is_linebreak c)"
    unfolding parsed_channel_def by (elim exE) (rule that)
  have e: "the (title ch) = t" "the (duration ch) = d" "the (attrs ch) = a" "the (url ch) = u"
    using f by simp_all
  show "title ch = Some (the (title ch))" "duration ch = Some (the (duration ch))"
    "attrs ch = Some (the (attrs ch))" "url ch = Some (the (url ch))"
    using f by simp_all
  show "strip (the (title ch)) = the (title ch)" unfolding e using f by (elim conjE)
  show "\<forall>c \<in> set (the (title ch)). \<not> is_linebreak c" unfolding e using f by (elim conjE)
  show "\<forall>c \<in> set (the (duration ch)). is_dur_char c" unfolding e using f by (elim conjE)
  show "distinct (map fst (the (attrs ch)))" unfolding e using f by (elim conjE)
  show "\<forall>kv \<in> set (the (attrs ch)). fst kv \<noteq> [] \<and> (\<forall>c \<in> set (fst kv). is_key_char c) \<and>
           (\<forall>c \<in> set (snd kv). c \<noteq> DQUOTE \<and> c \<noteq> CHR '','' \<and> \<not> is_linebreak c)"
    unfolding e using f by (elim conjE)
  show "strip (the (url ch)) = the (url ch)" unfolding e using f by (elim conjE)
  show "\<not> startswith (the (url ch)) ''#''" unfolding e using f by (elim conjE)
  show "\<forall>c \<in> set (the (url ch)). \<not> is_linebreak c" unfolding e using f by (elim conjE)
qed

lemma key_char_plain: "is_key_char c \<Longrightarrow> \<not> is_linebreak c \<and> c \<noteq> CHR '','' \<and> \<not> is_space c"
  by (auto simp: is_key_char_def is_letter_def is_digit_def is_linebreak_def is_space_def)

lemma build_parsed:
  assumes "parsed_channel ch"
  shows "build_extinf_line ch =
           rendered_header (the (duration ch)) (the (attrs ch)) @ '','' @ the (title ch)"
proof -
  note p = parsed_channel_fields[OF assms]
  obtain t0 d0 a0 where f: "title ch = Some t0" "duration ch = Some d0" "attrs ch = Some a0"
    using p(1,2,3) by blast
  let ?render = "\<lambda>kv. fst kv @ [CHR ''='', DQUOTE] @ snd kv @ [DQUOTE]"
  have q: "\<forall>kv \<in> set a0. DQUOTE \<notin> set (snd kv)"
    using p(9) unfolding f option.sel by blast
  have rp: "map (\<lambda>(k, v). k @ [CHR ''='', DQUOTE] @ replace_char DQUOTE SQUOTE v @ [DQUOTE]) a0 =
            map ?render a0"
  proof (rule map_cong[OF refl])
    fix kv assume "kv \<in> set a0"
    with q have "DQUOTE \<notin> set (snd kv)" by blast
    then have "replace_char DQUOTE SQUOTE (snd kv) = snd kv" by (rule replace_char_absent)
    then show "(case kv of (k, v) \<Rightarrow> k @ [CHR ''='', DQUOTE] @ replace_char DQUOTE SQUOTE v @ [DQUOTE]) =
               ?render kv" by (cases kv) simp
  qed
  show ?thesis
  proof (cases "a0 = []")
    case True
    then show ?thesis
      by (simp add: build_extinf_line_def f rendered_header_def)
  next
    case False
    then have jn: "join '' '' (map ?render a0) \<noteq> []" by (intro join_nonempty) auto
    have "build_extinf_line ch =
        ''#EXTINF:'' @ d0 @ '' '' @ join '' '' (map ?render a0) @ '','' @ t0"
      unfolding build_extinf_line_def Let_def f option.case rp using jn by simp
    then show ?thesis by (simp add: rendered_header_def False f)
  qed
qed

lemma join_ball:
  "\<forall>x \<in> set sep. Q x \<Longrightarrow> \<forall>y \<in> set xs. \<forall>x \<in> set y. Q x \<Longrightarrow> \<forall>x \<in> set (join sep xs). Q x"
  by (induction sep xs rule: join.induct) auto

lemma rendered_header_chars:
  assumes d: "\<forall>c \<in> set d. is_dur_char c"
      and a: "\<forall>kv \<in> set a. fst kv \<noteq> [] \<and> (\<forall>c \<in> set (fst kv). is_key_char c) \<and>
           (\<forall>c \<in> set (snd kv). c \<noteq> DQUOTE \<and> c \<noteq> CHR '','' \<and> \<not> is_linebreak c)"
  shows "\<forall>c \<in> set (rendered_header d a). c \<noteq> CHR '','' \<and> \<not> is_linebreak c"
proof -
  let ?Q = "\<lambda>c. c \<noteq> CHR '','' \<and> \<not> is_linebreak c"
  let ?render = "\<lambda>kv. fst kv @ [CHR ''='', DQUOTE] @ snd kv @ [DQUOTE]"
  have p1: "\<forall>x \<in> set ''#EXTINF:''. ?Q x"
    by (simp add: is_linebreak_def)
  have p2: "\<forall>x \<in> set d. ?Q x"
    using d dur_char_key key_char_plain by blast
  have p3: "\<forall>x \<in> set '' ''. ?Q x"
    by (simp add: is_linebreak_def)
  have eq: "?Q CHR ''=''" "?Q DQUOTE"
    by (simp_all add: is_linebreak_def)
  have p4: "\<forall>y \<in> set (map ?render a). \<forall>x \<in> set y. ?Q x"
  proof
    fix y assume "y \<in> set (map ?render a)"
    then obtain kv where kv: "kv \<in> set a" and y: "y = ?render kv" unfolding set_map by blast
    have k: "\<forall>x \<in> set (fst kv). ?Q x" using a kv key_char_plain by blast
    have v: "\<forall>x \<in> set (snd kv). ?Q x" using a kv by blast
    show "\<forall>x \<in> set y. ?Q x"
      unfolding y using k v eq by (simp add: ball_Un)
  qed
  have p5: "\<forall>x \<in> set (join '' '' (map ?render a)). ?Q x"
    using p3 p4 by (rule join_ball)
  have t: "\<forall>x \<in> set (if a = [] then [] else '' '' @ join '' '' (map ?render a)). ?Q x"
    using p3 p5 by (cases "a = []") (simp_all add: ball_Un)
  show ?thesis
    unfolding rendered_header_def set_append ball_Un using p1 p2 t by (intro conjI)
qed

lemma rendered_header_duration:
  assumes "\<forall>c \<in> set d. is_dur_char c"
  shows "(case match_duration (rendered_header d a) of Some x \<Rightarrow> x | None \<Rightarrow> []) = d"
proof -
  let ?tail = "if a = [] then []
      else '' '' @ join '' '' (map (\<lambda>kv. fst kv @ [CHR ''='', DQUOTE] @ snd kv @ [DQUOTE]) a)"
  have u: "upper (take 8 (rendered_header d a)) = ''#EXTINF:''"
    by (simp add: rendered_header_def upper_def upper_char_def)
  have dr: "drop 8 (rendered_header d a) = d @ ?tail"
    by (simp add: rendered_header_def)
  have "?tail = [] \<or> \<not> is_dur_char (hd ?tail)"
    using not_dur_space by simp
  with assms have tw: "takeWhile is_dur_char (d @ ?tail) = d"
    by (rule takeWhile_run)
  show ?thesis
    unfolding match_duration_def u dr tw by simp
qed

lemma rendered_header_attrs:
  assumes d: "\<forall>c \<in> set d. is_dur_char c"
      and a: "\<forall>kv \<in> set a. fst kv \<noteq> [] \<and> (\<forall>c \<in> set (fst kv). is_key_char c) \<and>
           (\<forall>c \<in> set (snd kv). c \<noteq> DQUOTE \<and> c \<noteq> CHR '','' \<and> \<not> is_linebreak c)"
  shows "findall_attrs (rendered_header d a) = a"
proof -
  let ?render = "\<lambda>kv. fst kv @ [CHR ''='', DQUOTE] @ snd kv @ [DQUOTE]"
  let ?tail = "if a = [] then [] else '' '' @ join '' '' (map ?render a)"
  have dk: "\<forall>c \<in> set d. is_key_char c" using d dur_char_key by blast
  have t0: "?tail = [] \<or> (\<not> is_key_char (hd ?tail) \<and> hd ?tail \<noteq> CHR ''='')"
    using key_char_consts(3) by simp
  have s1: "findall_attrs (rendered_header d a) = findall_attrs (''EXTINF'' @ ('':'' @ d @ ?tail))"
    unfolding rendered_header_def using findall_skip[OF key_char_consts(1)] by simp
  have s2: "findall_attrs (''EXTINF'' @ ('':'' @ d @ ?tail)) = findall_attrs ('':'' @ d @ ?tail)"
    by (rule findall_skip_run) (use key_char_letters key_char_consts in auto)
  have s3: "findall_attrs ('':'' @ d @ ?tail) = findall_attrs (d @ ?tail)"
    using findall_skip[OF key_char_consts(2)] by simp
  have s4: "findall_attrs (d @ ?tail) = findall_attrs ?tail"
    using dk t0 by (rule findall_skip_run)
  have lf: "\<forall>kv \<in> set a. fst kv \<noteq> [] \<and> (\<forall>c \<in> set (fst kv). is_key_char c) \<and>
             DQUOTE \<notin> set (snd kv) \<and> LF \<notin> set (snd kv)"
  proof
    fix kv assume kv: "kv \<in> set a"
    have "is_linebreak LF" by (simp add: is_linebreak_def)
    with a kv show "fst kv \<noteq> [] \<and> (\<forall>c \<in> set (fst kv). is_key_char c) \<and>
             DQUOTE \<notin> set (snd kv) \<and> LF \<notin> set (snd kv)" by blast
  qed
  have s5: "findall_attrs ?tail = a"
  proof (cases "a = []")
    case True
    then show ?thesis by (simp add: findall_attrs.simps)
  next
    case False
    have "findall_attrs ('' '' @ join '' '' (map ?render a)) = findall_attrs (join '' '' (map ?render a))"
      using findall_skip[OF key_char_consts(3)] by simp
    with False findall_rendered[OF lf] show ?thesis by simp
  qed
  show ?thesis unfolding s1 s2 s3 s4 s5 ..
qed

lemma rebuilt_channel:
  assumes "parsed_channel ch"
  shows "extinf_channel (build_extinf_line ch) u =
           \<lparr>title = title ch, duration = duration ch, attrs = attrs ch, url = Some u,
            raw_extinf = Some (build_extinf_line ch)\<rparr>"
proof -
  note p = parsed_channel_fields[OF assms]
  let ?t = "the (title ch)" and ?d = "the (duration ch)" and ?a = "the (attrs ch)"
  let ?h = "rendered_header ?d ?a"
  have b: "build_extinf_line ch = ?h @ '','' @ ?t" using assms by (rule build_parsed)
  have hc: "CHR '','' \<notin> set ?h" using rendered_header_chars[OF p(7) p(9)] by blast
  have sp: "split1 '','' (?h @ '','' @ ?t) = [?h, ?t]"
    unfolding split1_def split_comma_found[OF hc] by simp
  have du: "(case match_duration ?h of Some x \<Rightarrow> x | None \<Rightarrow> []) = ?d"
    using p(7) by (rule rendered_header_duration)
  have at: "dict_of_pairs (findall_attrs ?h) = ?a"
    unfolding rendered_header_attrs[OF p(7) p(9)] using p(8) by (rule dict_of_pairs_id)
  have "extinf_channel (?h @ '','' @ ?t) u =
          \<lparr>title = Some ?t, duration = Some ?d, attrs = Some ?a, url = Some u,
           raw_extinf = Some (?h @ '','' @ ?t)\<rparr>"
    unfolding extinf_channel_def Let_def sp by (simp add: du at p(5))
  then show ?thesis
    unfolding b using p(1,2,3) by simp
qed

lemma rebuilt_line:
  assumes "parsed_channel ch"
  shows "strip (build_extinf_line ch) = build_extinf_line ch"
    and "build_extinf_line ch \<noteq> []"
    and "startswith (upper (build_extinf_line ch)) ''#EXTINF''"
    and "\<forall>c \<in> set (build_extinf_line ch). \<not> is_linebreak c"
proof -
  note p = parsed_channel_fields[OF assms]
  let ?t = "the (title ch)" and ?d = "the (duration ch)" and ?a = "the (attrs ch)"
  let ?h = "rendered_header ?d ?a"
  have b: "build_extinf_line ch = ?h @ '','' @ ?t" using assms by (rule build_parsed)
  obtain r where h: "?h = ''#EXTINF:'' @ r" unfolding rendered_header_def by blast
  show ne: "build_extinf_line ch \<noteq> []" unfolding b by simp
  show "startswith (upper (build_extinf_line ch)) ''#EXTINF''"
    unfolding b h by (simp add: startswith_def upper_def upper_char_def)
  have hd: "hd (build_extinf_line ch) = CHR ''#''" unfolding b h by simp
  have nh: "\<not> is_space CHR ''#''" "\<not> is_space CHR '',''" by (simp_all add: is_space_def)
  have la: "\<not> is_space (last (build_extinf_line ch))"
  proof (cases "?t = []")
    case True
    then have "last (build_extinf_line ch) = CHR '',''" unfolding b by simp
    with nh show ?thesis by simp
  next
    case False
    then have "last (build_extinf_line ch) = last ?t" unfolding b by simp
    with stripped_ends[OF p(5) False] show ?thesis by simp
  qed
  show "strip (build_extinf_line ch) = build_extinf_line ch"
    using ne hd nh la by (intro strip_id) simp_all
  have "\<forall>c \<in> set ?h. \<not> is_linebreak c" using rendered_header_chars[OF p(7) p(9)] by blast
  moreover have "\<not> is_linebreak CHR '',''" by (simp add: is_linebreak_def)
  ultimately show "\<forall>c \<in> set (build_extinf_line ch). \<not> is_linebreak c"
    unfolding b using p(6) by (simp add: ball_Un)
qed

lemma find_url_found:
  assumes "strip u = u" "\<not> startswith u ''#''" "u \<noteq> []"
  shows "find_url (u # ls) = (u, ls)"
  using assms by (simp add: Let_def)

lemma find_url_blank: "find_url [[]] = ([], [])"
  by (simp add: Let_def strip_Nil)

text \<open>The lines that \<open>create_m3u_from_channels\<close> writes for channels.\<close>

lemma reparse_lines:
  assumes "\<forall>ch \<in> set chs. parsed_channel ch"
      and "\<forall>ch \<in> set (butlast chs). url ch \<noteq> Some []"
  shows "parse_lines (concat (map (\<lambda>ch. [build_extinf_line ch, the (url ch)]) chs)) =
           map (\<lambda>ch. ch\<lparr>raw_extinf := Some (build_extinf_line ch)\<rparr>) chs"
  using assms
proof (induction chs)
  case Nil
  show ?case by (simp add: parse_lines.simps)
next
  case (Cons ch chs)
  have pc: "parsed_channel ch" using Cons.prems(1) by simp
  note p = parsed_channel_fields[OF pc]
  note l = rebuilt_line[OF pc]
  let ?ext = "build_extinf_line ch" and ?u = "the (url ch)"
  let ?rest = "concat (map (\<lambda>ch. [build_extinf_line ch, the (url ch)]) chs)"
  have step: "parse_lines (?ext # ?u # ?rest) =
       extinf_channel ?ext (fst (find_url (?u # ?rest))) # parse_lines (snd (find_url (?u # ?rest)))"
    using l(1,2,3) by (simp add: parse_lines.simps(2)[of ?ext] Let_def)
  have rc: "extinf_channel ?ext ?u = ch\<lparr>raw_extinf := Some ?ext\<rparr>"
    unfolding rebuilt_channel[OF pc] using p(4) by simp
  show ?case
  proof (cases "chs = []")
    case True
    have f: "fst (find_url [?u]) = ?u \<and> parse_lines (snd (find_url [?u])) = []"
    proof (cases "?u = []")
      case True
      show ?thesis unfolding True find_url_blank by (simp add: parse_lines.simps)
    next
      case False
      with p(10,11) have "find_url [?u] = (?u, [])" by (intro find_url_found)
      then show ?thesis by (simp add: parse_lines.simps)
    qed
    show ?thesis using True step f rc by simp
  next
    case False
    then have "ch \<in> set (butlast (ch # chs))" by simp
    with Cons.prems(2) have "url ch \<noteq> Some []" by blast
    with p(4) have une: "?u \<noteq> []" by auto
    with p(10,11) have f: "find_url (?u # ?rest) = (?u, ?rest)" by (intro find_url_found)
    have ih: "parse_lines ?rest = map (\<lambda>ch. ch\<lparr>raw_extinf := Some (build_extinf_line ch)\<rparr>) chs"
    proof (rule Cons.IH)
      show "\<forall>ch \<in> set chs. parsed_channel ch" using Cons.prems(1) by simp
      show "\<forall>ch \<in> set (butlast chs). url ch \<noteq> Some []"
        using Cons.prems(2) False by simp
    qed
    show ?thesis using step f rc ih by simp
  qed
qed

lemma serialized_lines:
  assumes "\<forall>ch \<in> set chs. parsed_channel ch"
  shows "splitlines (concat (map (\<lambda>ch. build_extinf_line ch @ [LF] @
                        (case url ch of None \<Rightarrow> [] | Some u \<Rightarrow> u) @ [LF]) chs)) =
         concat (map (\<lambda>ch. [build_extinf_line ch, the (url ch)]) chs)"
  using assms
proof (induction chs)
  case Nil
  show ?case by (simp add: splitlines.simps)
next
  case (Cons ch chs)
  have pc: "parsed_channel ch" using Cons.prems by simp
  note p = parsed_channel_fields[OF pc]
  note l = rebuilt_line[OF pc]
  let ?rest = "concat (map (\<lambda>ch. build_extinf_line ch @ [LF] @
                        (case url ch of None \<Rightarrow> [] | Some u \<Rightarrow> u) @ [LF]) chs)"
  have u: "(case url ch of None \<Rightarrow> [] | Some u \<Rightarrow> u) = the (url ch)"
    by (subst p(4)) simp
  have "splitlines (build_extinf_line ch @ LF # (the (url ch) @ LF # ?rest)) =
          build_extinf_line ch # splitlines (the (url ch) @ LF # ?rest)"
    using l(4) by (rule splitlines_line)
  also have "splitlines (the (url ch) @ LF # ?rest) = the (url ch) # splitlines ?rest"
    using p(12) by (rule splitlines_line)
  finally show ?case
    using Cons.IH Cons.prems by (simp add: u)
qed

lemma reparse_all:
  "parse_m3u_to_json (create_m3u_from_channels (parse_m3u_to_json m3u_text)) =
     map (\<lambda>ch. ch\<lparr>raw_extinf := Some (build_extinf_line ch)\<rparr>) (parse_m3u_to_json m3u_text)"
proof -
  let ?lines = "map (rstrip_chars [LF]) (splitlines m3u_text)"
  let ?chs = "parse_lines ?lines"
  have lb: "is_linebreak LF" by (simp add: is_linebreak_def)
  have nb: "\<forall>l \<in> set ?lines. \<forall>c \<in> set l. \<not> is_linebreak c"
  proof (intro ballI)
    fix l c assume "l \<in> set ?lines" and c: "c \<in> set l"
    then obtain l0 where l0: "l0 \<in> set (splitlines m3u_text)" and l: "l = rstrip_chars [LF] l0"
      by auto
    have "LF \<notin> set l0" using splitlines_no_break[OF l0] lb by blast
    then have "l = l0" unfolding l by (rule rstrip_LF_id)
    with c splitlines_no_break[OF l0] show "\<not> is_linebreak c" by simp
  qed
  note inv = parse_lines_parsed[OF nb]
  have pcs: "\<forall>ch \<in> set ?chs. parsed_channel ch" using inv by blast
  have bl: "\<forall>ch \<in> set (butlast ?chs). url ch \<noteq> Some []" using inv by blast
  let ?out = "concat (map (\<lambda>ch. [build_extinf_line ch, the (url ch)]) ?chs)"
  have m: "\<forall>c \<in> set ''#EXTM3U''. \<not> is_linebreak c" by (simp add: is_linebreak_def)
  have sl: "splitlines (create_m3u_from_channels ?chs) = ''#EXTM3U'' # ?out"
    unfolding create_m3u_from_channels_def
    using splitlines_line[OF m] serialized_lines[OF pcs] by simp
  have out_nb: "\<forall>l \<in> set ?out. LF \<notin> set l"
  proof
    fix l assume "l \<in> set ?out"
    then obtain ch where ch: "ch \<in> set ?chs" and l: "l = build_extinf_line ch \<or> l = the (url ch)"
      by auto
    from ch pcs have pc: "parsed_channel ch" by blast
    from l show "LF \<notin> set l"
      using rebuilt_line(4)[OF pc] parsed_channel_fields(12)[OF pc] lb by blast
  qed
  have rs: "map (rstrip_chars [LF]) (''#EXTM3U'' # ?out) = ''#EXTM3U'' # ?out"
  proof -
    have "map (rstrip_chars [LF]) ?out = ?out"
    proof (rule map_idI)
      fix l assume "l \<in> set ?out"
      with out_nb have "LF \<notin> set l" by blast
      then show "rstrip_chars [LF] l = l" by (rule rstrip_LF_id)
    qed
    moreover have "rstrip_chars [LF] ''#EXTM3U'' = ''#EXTM3U''"
      by (simp add: rstrip_chars_def)
    ultimately show ?thesis by simp
  qed
  have first: "parse_lines (''#EXTM3U'' # ?out) = parse_lines ?out"
    by (simp add: parse_lines.simps(2)[of "''#EXTM3U''"] Let_def strip_def is_space_def
        upper_def upper_char_def startswith_def)
  show ?thesis
    unfolding parse_m3u_to_json_def sl rs first
    using pcs bl by (rule reparse_lines)
qed

subsection \<open>Parsing, rebuilding, parsing again\<close>

text \<open>A playlist of one channel with two attributes.\<close>

lemma parse_scenario:
  "parse_m3u_to_json
     (''#EXTM3U'' @ [LF] @
      ''#EXTINF:-1 tvg-id='' @ [DQUOTE] @ ''1'' @ [DQUOTE] @ '' group-title='' @ [DQUOTE] @ ''News'' @
        [DQUOTE] @ '',Channel A'' @ [LF] @
      ''http://x/a.ts'' @ [LF]) =
   [\<lparr>title = Some ''Channel A'', duration = Some ''-1'',
     attrs = Some [(''tvg-id'', ''1''), (''group-title'', ''News'')],
     url = Some ''http://x/a.ts'',
     raw_extinf = Some (''#EXTINF:-1 tvg-id='' @ [DQUOTE] @ ''1'' @ [DQUOTE] @ '' group-title='' @
        [DQUOTE] @ ''News'' @ [DQUOTE] @ '',Channel A'')\<rparr>]"
  by code_simp

text \<open>
  C1. For every M3U text, parsing what \<open>create_m3u_from_channels\<close> writes for the
  channels parsed from the text gives channels equal to them in duration, title, URL
  and attributes.
\<close>

theorem parse_serialize_parse:
  "map (\<lambda>ch. (duration ch, title ch, url ch, attrs ch))
     (parse_m3u_to_json (create_m3u_from_channels (parse_m3u_to_json m3u_text))) =
   map (\<lambda>ch. (duration ch, title ch, url ch, attrs ch)) (parse_m3u_to_json m3u_text)"
  unfolding reparse_all by (simp add: comp_def)

text \<open>What the look-ahead for the URL returns, in general.\<close>

lemma find_url_none:
  "\<forall>l \<in> set pre. strip l = [] \<or> startswith (strip l) ''#'' \<Longrightarrow> find_url pre = ([], [])"
  by (induction pre) (simp_all add: Let_def)

lemma find_url_first:
  assumes "\<forall>l \<in> set pre. strip l = [] \<or> startswith (strip l) ''#''"
      and "strip l \<noteq> []" "\<not> startswith (strip l) ''#''"
  shows "find_url (pre @ l # rest) = (strip l, rest)"
  using assms by (induction pre) (simp_all add: Let_def)

text \<open>
  C2 says that a record whose \<open>#EXTINF\<close> line is followed by another \<open>#EXTINF\<close> line before
  any URL has the empty URL. The look-ahead passes over every line that starts with \<open>#\<close>,
  a following \<open>#EXTINF\<close> line included: the first record takes the URL that belongs to the
  second one, and the second \<open>#EXTINF\<close> line begins no record.
\<close>

theorem parse_extinf_without_url:
  "map (\<lambda>ch. (title ch, url ch))
     (parse_m3u_to_json
        (''#EXTM3U'' @ [LF] @ ''#EXTINF:-1,A'' @ [LF] @ ''#EXTINF:-1,B'' @ [LF] @ ''http://x/b.ts'' @ [LF])) =
   [(Some ''A'', Some ''http://x/b.ts'')]"
  by code_simp

section \<open>Properties of the HTTP strategy selector\<close>



section \<open>Properties of the probe engine\<close>

lemma save_debug_response_log [simp]:
  "requests_log (snd (save_debug_response d env n e t w)) = requests_log w"
  by (simp add: save_debug_response_def Let_def)

lemma save_debug_response_clock [simp]:
  "clock_reads (snd (save_debug_response d env n e t w)) = Suc (clock_reads w)"
  by (simp add: save_debug_response_def Let_def)

lemma save_debug_response_files:
  "debug_files (snd (save_debug_response d env n e t w)) =
     (if can_write env (debug_path d (time_at env (clock_reads w)) n)
      then dict_set (debug_files w) (debug_path d (time_at env (clock_reads w)) n)
             (debug_content e t)
      else debug_files w)"
  by (simp add: save_debug_response_def Let_def)

text \<open>
  C3, as stated, fails in one part: nothing is persisted for the candidate that fails
  at the transport level. With A raising, B answering 404 and C answering valid JSON,
  the debug directory ends up with one file, the one for B.
\<close>

theorem fetch_player_api_transport_error_counterexample:
  "fetch_player_api_robust
     \<lparr>has_cloudscraper = False,
      scraper_get = (\<lambda>u t s. Inl (LibraryError ''not installed'')),
      requests_get = (\<lambda>u t s.
         if u = ''http://h/player_api.php?username=u&password=p''
         then Inl (LibraryError ''connection refused'')
         else if u = ''http://h:80/player_api.php?username=u&password=p''
         then Inr \<lparr>status_code = 404, body_text = ''Not Found'',
                   json_result = Inl ValueError, stream_result = Inr ''Not Found''\<rparr>
         else Inr \<lparr>status_code = 200, body_text = ''{}'',
                   json_result = Inr (JObj []), stream_result = Inr ''{}''\<rparr>),
      time_at = (\<lambda>n. 1700000000), can_write = (\<lambda>p. True)\<rparr>
     ''h'' ''u'' ''p'' 20
     \<lparr>debug_files = [], clock_reads = 0, requests_log = [], servers_file = []\<rparr> =
   (Inr (ApiOk ''http://h:8080/player_api.php?username=u&password=p'' ''requests'' (JObj [])),
    \<lparr>debug_files =
       [(''xtream_data32/debug/1700000000_player_api_non200_debug.txt'',
         ''Endpoint: http://h:80/player_api.php?username=u&password=p'' @ [LF, LF] @ ''Not Found'')],
     clock_reads = 1,
     requests_log =
       [''http://h/player_api.php?username=u&password=p'',
        ''http://h:80/player_api.php?username=u&password=p'',
        ''http://h:8080/player_api.php?username=u&password=p''],
     servers_file = []\<rparr>)"
  by (simp add: fetch_player_api_robust_def generate_endpoints_def generate_endpoints_with_def
      normalize_address_def
      strip_def is_space_def rstrip_chars_def schemes_and_host_def startswith_def
      common_ports_def candidates_def Let_def api_url_def request_with_client_def
      save_debug_response_def debug_path_def debug_content_def DEBUG_DIR_def replace_char_def
      show_int_def show_nat.simps digit_char_def)

text \<open>
  C3, amended. When the first candidate A fails at the transport level, the second
  candidate B returns status 404 and the third candidate C returns status 200 with valid
  JSON, \<open>fetch_player_api_robust\<close> returns success with C's URL, client and payload; the
  debug directory gains the record for B (when it can be written) and nothing for A;
  exactly the URLs of A, B and C are requested, so no candidate after C is.
\<close>

theorem fetch_player_api_error_404_ok:
  assumes ge: "generate_endpoints address = Inr (A # B # C # rest)"
      and a: "request_with_client env (api_url A uname pword) timeout False = Inr (Inl e, cA)"
      and b: "request_with_client env (api_url B uname pword) timeout False = Inr (Inr rB, cB)"
      and b404: "status_code rB = 404"
      and c: "request_with_client env (api_url C uname pword) timeout False = Inr (Inr rC, cC)"
      and c200: "status_code rC = 200"
      and cjson: "json_result rC = Inr data"
  shows "\<exists>w'. fetch_player_api_robust env address uname pword timeout w =
                 (Inr (ApiOk (api_url C uname pword) cC data), w') \<and>
              requests_log w' =
                requests_log w @ [api_url A uname pword, api_url B uname pword, api_url C uname pword] \<and>
              clock_reads w' = Suc (clock_reads w) \<and>
              debug_files w' =
                (if can_write env (debug_path DEBUG_DIR (time_at env (clock_reads w)) ''player_api_non200'')
                 then dict_set (debug_files w)
                        (debug_path DEBUG_DIR (time_at env (clock_reads w)) ''player_api_non200'')
                        (debug_content (api_url B uname pword) (body_text rB))
                 else debug_files w)"
  unfolding fetch_player_api_robust_def ge
  by (simp add: a b b404 c c200 cjson Let_def save_debug_response_files)

theorem fetch_player_api_error_404_ok_witness:
  "fst (fetch_player_api_robust \<lparr>has_cloudscraper = True,
      scraper_get = (\<lambda>u t s. Inl (LibraryError ''challenge failed'')),
      requests_get = (\<lambda>u t s.
         if u = ''http://tv.example.org/player_api.php?username=bob&password=pw''
         then Inl (LibraryError ''connection refused'')
         else if u = ''http://tv.example.org:80/player_api.php?username=bob&password=pw''
         then Inr \<lparr>status_code = 404, body_text = ''nginx 404'',
                   json_result = Inl ValueError, stream_result = Inr ''nginx 404''\<rparr>
         else Inr \<lparr>status_code = 200, body_text = ''{}'',
                   json_result = Inr (JObj []), stream_result = Inr ''{}''\<rparr>),
      time_at = (\<lambda>n. 1700000000 + int n), can_write = (\<lambda>p. True)\<rparr> ''tv.example.org'' ''bob'' ''pw'' 20 \<lparr>debug_files = [], clock_reads = 0, requests_log = [], servers_file = []\<rparr>) =
     Inr (ApiOk ''http://tv.example.org:8080/player_api.php?username=bob&password=pw''
            ''requests'' (JObj [])) \<and>
   requests_log (snd (fetch_player_api_robust \<lparr>has_cloudscraper = True,
      scraper_get = (\<lambda>u t s. Inl (LibraryError ''challenge failed'')),
      requests_get = (\<lambda>u t s.
         if u = ''http://tv.example.org/player_api.php?username=bob&password=pw''
         then Inl (LibraryError ''connection refused'')
         else if u = ''http://tv.example.org:80/player_api.php?username=bob&password=pw''
         then Inr \<lparr>status_code = 404, body_text = ''nginx 404'',
                   json_result = Inl ValueError, stream_result = Inr ''nginx 404''\<rparr>
         else Inr \<lparr>status_code = 200, body_text = ''{}'',
                   json_result = Inr (JObj []), stream_result = Inr ''{}''\<rparr>),
      time_at = (\<lambda>n. 1700000000 + int n), can_write = (\<lambda>p. True)\<rparr> ''tv.example.org'' ''bob'' ''pw'' 20 \<lparr>debug_files = [], clock_reads = 0, requests_log = [], servers_file = []\<rparr>)) =
     [''http://tv.example.org/player_api.php?username=bob&password=pw'',
      ''http://tv.example.org:80/player_api.php?username=bob&password=pw'',
      ''http://tv.example.org:8080/player_api.php?username=bob&password=pw''] \<and>
   debug_files (snd (fetch_player_api_robust \<lparr>has_cloudscraper = True,
      scraper_get = (\<lambda>u t s. Inl (LibraryError ''challenge failed'')),
      requests_get = (\<lambda>u t s.
         if u = ''http://tv.example.org/player_api.php?username=bob&password=pw''
         then Inl (LibraryError ''connection refused'')
         else if u = ''http://tv.example.org:80/player_api.php?username=bob&password=pw''
         then Inr \<lparr>status_code = 404, body_text = ''nginx 404'',
                   json_result = Inl ValueError, stream_result = Inr ''nginx 404''\<rparr>
         else Inr \<lparr>status_code = 200, body_text = ''{}'',
                   json_result = Inr (JObj []), stream_result = Inr ''{}''\<rparr>),
      time_at = (\<lambda>n. 1700000000 + int n), can_write = (\<lambda>p. True)\<rparr> ''tv.example.org'' ''bob'' ''pw'' 20 \<lparr>debug_files = [], clock_reads = 0, requests_log = [], servers_file = []\<rparr>)) =
     [(''xtream_data32/debug/1700000000_player_api_non200_debug.txt'',
       ''Endpoint: http://tv.example.org:80/player_api.php?username=bob&password=pw'' @
       [LF, LF] @ ''nginx 404'')]"
proof -
  let ?env = "\<lparr>has_cloudscraper = True,
      scraper_get = (\<lambda>u t s. Inl (LibraryError ''challenge failed'')),
      requests_get = (\<lambda>u t s.
         if u = ''http://tv.example.org/player_api.php?username=bob&password=pw''
         then Inl (LibraryError ''connection refused'')
         else if u = ''http://tv.example.org:80/player_api.php?username=bob&password=pw''
         then Inr \<lparr>status_code = 404, body_text = ''nginx 404'',
                   json_result = Inl ValueError, stream_result = Inr ''nginx 404''\<rparr>
         else Inr \<lparr>status_code = 200, body_text = ''{}'',
                   json_result = Inr (JObj []), stream_result = Inr ''{}''\<rparr>),
      time_at = (\<lambda>n. 1700000000 + int n), can_write = (\<lambda>p. True)\<rparr>"
  let ?w = "\<lparr>debug_files = [], clock_reads = 0, requests_log = [], servers_file = []\<rparr>"
  have ge: "generate_endpoints ''tv.example.org'' =
      Inr (''http://tv.example.org'' # ''http://tv.example.org:80'' # ''http://tv.example.org:8080'' #
           [''http://tv.example.org:8000'', ''http://tv.example.org:8081'',
            ''http://tv.example.org:8443'', ''http://tv.example.org:443'',
            ''https://tv.example.org'', ''https://tv.example.org:80'',
            ''https://tv.example.org:8080'', ''https://tv.example.org:8000'',
            ''https://tv.example.org:8081'', ''https://tv.example.org:8443'',
            ''https://tv.example.org:443''])"
    by (simp add: generate_endpoints_def generate_endpoints_with_def
      normalize_address_def
      strip_def is_space_def rstrip_chars_def schemes_and_host_def startswith_def split1_def
      common_ports_def candidates_def Let_def)
  have a: "request_with_client ?env (api_url ''http://tv.example.org'' ''bob'' ''pw'') 20 False =
      Inr (Inl (LibraryError ''connection refused''), ''requests'')"
    by (simp add: request_with_client_def api_url_def)
  have b: "request_with_client ?env (api_url ''http://tv.example.org:80'' ''bob'' ''pw'') 20 False =
      Inr (Inr \<lparr>status_code = 404, body_text = ''nginx 404'',
                   json_result = Inl ValueError, stream_result = Inr ''nginx 404''\<rparr>, ''requests'')"
    by (simp add: request_with_client_def api_url_def)
  have c: "request_with_client ?env (api_url ''http://tv.example.org:8080'' ''bob'' ''pw'') 20 False =
      Inr (Inr \<lparr>status_code = 200, body_text = ''{}'',
                   json_result = Inr (JObj []), stream_result = Inr ''{}''\<rparr>, ''requests'')"
    by (simp add: request_with_client_def api_url_def)
  from fetch_player_api_error_404_ok [OF ge a b _ c, of "JObj []" ?w]
  obtain w' where
    "fetch_player_api_robust ?env ''tv.example.org'' ''bob'' ''pw'' 20 ?w =
       (Inr (ApiOk (api_url ''http://tv.example.org:8080'' ''bob'' ''pw'') ''requests'' (JObj [])), w')"
    "requests_log w' = requests_log ?w @
       [api_url ''http://tv.example.org'' ''bob'' ''pw'', api_url ''http://tv.example.org:80'' ''bob'' ''pw'',
        api_url ''http://tv.example.org:8080'' ''bob'' ''pw'']"
    "debug_files w' =
       (if can_write ?env (debug_path DEBUG_DIR (time_at ?env (clock_reads ?w)) ''player_api_non200'')
        then dict_set (debug_files ?w)
               (debug_path DEBUG_DIR (time_at ?env (clock_reads ?w)) ''player_api_non200'')
               (debug_content (api_url ''http://tv.example.org:80'' ''bob'' ''pw'')
                  (body_text \<lparr>status_code = 404, body_text = ''nginx 404'',
                   json_result = Inl ValueError, stream_result = Inr ''nginx 404''\<rparr>))
        else debug_files ?w)"
    by auto
  then show ?thesis
    by (simp add: api_url_def save_debug_response_def debug_path_def debug_content_def DEBUG_DIR_def replace_char_def
      show_int_def show_nat.simps digit_char_def)
qed

text \<open>The name of a debug file determines the second it was written in.\<close>

lemma digit_char_inj: "n < 10 \<Longrightarrow> m < 10 \<Longrightarrow> digit_char n = digit_char m \<Longrightarrow> n = m"
proof -
  assume n: "n < 10" and m: "m < 10" and e: "digit_char n = digit_char m"
  have d: "distinct ''0123456789''" by simp
  have "n < length ''0123456789''" "m < length ''0123456789''" using n m by simp_all
  with d e show ?thesis
    unfolding digit_char_def by (simp only: nth_eq_iff_index_eq)
qed

lemma digit_char_in: "d < 10 \<Longrightarrow> digit_char d \<in> set ''0123456789''"
  unfolding digit_char_def by (rule nth_mem) simp

lemma show_nat_nonempty: "show_nat n \<noteq> []"
  by (subst show_nat.simps) simp

lemma show_nat_digits: "set (show_nat n) \<subseteq> set ''0123456789''"
proof (induction n rule: show_nat.induct)
  case (1 n)
  show ?case
  proof (cases "n < 10")
    case True
    then show ?thesis using digit_char_in[of n] by (subst show_nat.simps) simp
  next
    case False
    have "n mod 10 < 10" by simp
    then have "digit_char (n mod 10) \<in> set ''0123456789''" by (rule digit_char_in)
    with False 1 show ?thesis by (subst show_nat.simps) simp
  qed
qed

lemma show_nat_inj: "show_nat n = show_nat m \<Longrightarrow> n = m"
proof (induction n arbitrary: m rule: show_nat.induct)
  case (1 n)
  show ?case
  proof (cases "n < 10")
    case n: True
    show ?thesis
    proof (cases "m < 10")
      case True
      with n "1.prems" have "digit_char n = digit_char m"
        by (simp add: show_nat.simps[of n] show_nat.simps[of m])
      with n True show ?thesis by (rule digit_char_inj)
    next
      case False
      with n "1.prems" have "[digit_char n] = show_nat (m div 10) @ [digit_char (m mod 10)]"
        by (simp add: show_nat.simps[of n] show_nat.simps[of m])
      then have "show_nat (m div 10) = []" by simp
      with show_nat_nonempty show ?thesis by blast
    qed
  next
    case n: False
    show ?thesis
    proof (cases "m < 10")
      case True
      with n "1.prems" have "show_nat (n div 10) @ [digit_char (n mod 10)] = [digit_char m]"
        by (simp add: show_nat.simps[of n] show_nat.simps[of m])
      then have "show_nat (n div 10) = []" by simp
      with show_nat_nonempty show ?thesis by blast
    next
      case False
      with n "1.prems" have e: "show_nat (n div 10) = show_nat (m div 10)"
        and d: "digit_char (n mod 10) = digit_char (m mod 10)"
        by (simp_all add: show_nat.simps[of n] show_nat.simps[of m])
      from "1.IH"[OF n e] have q: "n div 10 = m div 10" .
      have "n mod 10 = m mod 10" using d by (intro digit_char_inj) simp_all
      with q show ?thesis by (metis div_mult_mod_eq)
    qed
  qed
qed

lemma show_int_inj: "show_int i = show_int j \<Longrightarrow> i = j"
proof -
  assume e: "show_int i = show_int j"
  have nd: "hd (show_nat n) \<noteq> CHR ''-''" for n
  proof -
    have "hd (show_nat n) \<in> set (show_nat n)" using show_nat_nonempty by simp
    then have "hd (show_nat n) \<in> set ''0123456789''" using show_nat_digits by blast
    then show ?thesis by auto
  qed
  consider (nn) "i < 0" "j < 0" | (np) "i < 0" "\<not> j < 0" | (pn) "\<not> i < 0" "j < 0"
    | (pp) "\<not> i < 0" "\<not> j < 0" by blast
  then show ?thesis
  proof cases
    case nn
    with e have "show_nat (nat (- i)) = show_nat (nat (- j))" by (simp add: show_int_def)
    then have "nat (- i) = nat (- j)" by (rule show_nat_inj)
    with nn show ?thesis by simp
  next
    case np
    with e have "CHR ''-'' # show_nat (nat (- i)) = show_nat (nat j)" by (simp add: show_int_def)
    then have "hd (show_nat (nat j)) = CHR ''-''" by (metis list.sel(1))
    with nd show ?thesis by blast
  next
    case pn
    with e have "show_nat (nat i) = CHR ''-'' # show_nat (nat (- j))" by (simp add: show_int_def)
    then have "hd (show_nat (nat i)) = CHR ''-''" by simp
    with nd show ?thesis by blast
  next
    case pp
    with e have "show_nat (nat i) = show_nat (nat j)" by (simp add: show_int_def)
    then have "nat i = nat j" by (rule show_nat_inj)
    with pp show ?thesis by simp
  qed
qed

lemma show_int_no_space: "CHR '' '' \<notin> set (show_int i)"
proof -
  have d: "CHR '' '' \<notin> set ''0123456789''" by simp
  have n: "CHR '' '' \<notin> set (show_nat k)" for k
    using show_nat_digits[of k] d by (meson subsetD)
  show ?thesis
    by (cases "i < 0") (simp_all add: show_int_def n)
qed

lemma debug_path_inj: "debug_path d t1 n = debug_path d t2 n \<Longrightarrow> t1 = t2"
proof -
  assume e: "debug_path d t1 n = debug_path d t2 n"
  have r: "replace_char CHR '' '' CHR ''_'' (show_int t @ x) =
           show_int t @ replace_char CHR '' '' CHR ''_'' x" for t x
    using replace_char_absent[OF show_int_no_space, of "CHR ''_''" t]
    by (simp add: replace_char_def)
  from e have "show_int t1 = show_int t2"
    unfolding debug_path_def r by simp
  then show ?thesis by (rule show_int_inj)
qed

lemma playlist_loop_all_non_m3u:
  assumes "\<forall>base \<in> set eps. \<exists>r c.
             request_with_client env (playlist_url base uname pword ty) timeout True = Inr (Inr r, c) \<and>
             status_code r = 200 \<and> stream_result r = Inr (body base) \<and>
             \<not> contains (upper (body base)) ''#EXTM3U''"
  shows "playlist_loop env eps uname pword ty timeout w =
           (Inr PlaylistFailed,
            foldl (\<lambda>w base. snd (save_debug_response DEBUG_DIR env ''playlist_nonm3u''
                      (playlist_url base uname pword ty) (body base)
                      (w\<lparr>requests_log := requests_log w @ [playlist_url base uname pword ty]\<rparr>)))
              w eps)"
  using assms
proof (induction eps arbitrary: w)
  case Nil
  show ?case by simp
next
  case (Cons b bs)
  from Cons.prems obtain r c where
    rq: "request_with_client env (playlist_url b uname pword ty) timeout True = Inr (Inr r, c)"
    and st: "status_code r = 200" and sr: "stream_result r = Inr (body b)"
    and nm: "\<not> contains (upper (body b)) ''#EXTM3U''"
    by auto
  have rest: "\<forall>base \<in> set bs. \<exists>r c.
             request_with_client env (playlist_url base uname pword ty) timeout True = Inr (Inr r, c) \<and>
             status_code r = 200 \<and> stream_result r = Inr (body base) \<and>
             \<not> contains (upper (body base)) ''#EXTM3U''"
    using Cons.prems by simp
  show ?case
    by (simp add: rq st sr nm Let_def Cons.IH[OF rest])
qed

lemma fold_save_log:
  "requests_log (foldl (\<lambda>w base. snd (save_debug_response d env n (u base) (body base)
                      (w\<lparr>requests_log := requests_log w @ [u base]\<rparr>))) w eps) =
     requests_log w @ map u eps"
  by (induction eps arbitrary: w) simp_all

lemma fold_save_clock:
  "clock_reads (foldl (\<lambda>w base. snd (save_debug_response d env n (u base) (body base)
                      (w\<lparr>requests_log := requests_log w @ [u base]\<rparr>))) w eps) =
     clock_reads w + length eps"
  by (induction eps arbitrary: w) simp_all

lemma map_of_dict_set: "map_of (dict_set d k v) = (map_of d)(k \<mapsto> v)"
  by (induction d) (auto simp: fun_eq_iff)

lemma save_debug_response_lookup:
  "map_of (debug_files (snd (save_debug_response d env n e t w))) p =
     (if can_write env (debug_path d (time_at env (clock_reads w)) n) \<and>
         p = debug_path d (time_at env (clock_reads w)) n
      then Some (debug_content e t)
      else map_of (debug_files w) p)"
  by (simp add: save_debug_response_files map_of_dict_set)

lemma fold_save_other:
  assumes "\<forall>k<length eps. debug_path d (time_at env (clock_reads w + k)) n \<noteq> p"
  shows "map_of (debug_files (foldl (\<lambda>w base. snd (save_debug_response d env n (u base) (body base)
                      (w\<lparr>requests_log := requests_log w @ [u base]\<rparr>))) w eps)) p =
         map_of (debug_files w) p"
  using assms
proof (induction eps arbitrary: w)
  case Nil
  show ?case by simp
next
  case (Cons b bs)
  let ?w1 = "snd (save_debug_response d env n (u b) (body b)
                      (w\<lparr>requests_log := requests_log w @ [u b]\<rparr>))"
  have p0: "debug_path d (time_at env (clock_reads w)) n \<noteq> p"
    using Cons.prems by force
  have rest: "\<forall>k<length bs. debug_path d (time_at env (clock_reads ?w1 + k)) n \<noteq> p"
  proof (intro allI impI)
    fix k assume "k < length bs"
    then have "Suc k < length (b # bs)" by simp
    with Cons.prems have "debug_path d (time_at env (clock_reads w + Suc k)) n \<noteq> p" by blast
    then show "debug_path d (time_at env (clock_reads ?w1 + k)) n \<noteq> p" by simp
  qed
  have "map_of (debug_files ?w1) p = map_of (debug_files w) p"
    using p0 by (simp add: save_debug_response_lookup)
  with Cons.IH[OF rest] show ?case by simp
qed

lemma fold_save_lookup:
  assumes "inj_on (time_at env) {clock_reads w..<clock_reads w + length eps}"
      and "k < length eps"
      and "can_write env (debug_path d (time_at env (clock_reads w + k)) n)"
  shows "map_of (debug_files (foldl (\<lambda>w base. snd (save_debug_response d env n (u base) (body base)
                      (w\<lparr>requests_log := requests_log w @ [u base]\<rparr>))) w eps))
           (debug_path d (time_at env (clock_reads w + k)) n) =
         Some (debug_content (u (eps ! k)) (body (eps ! k)))"
  using assms
proof (induction eps arbitrary: w k)
  case Nil
  then show ?case by simp
next
  case (Cons b bs)
  let ?c = "clock_reads w"
  let ?w1 = "snd (save_debug_response d env n (u b) (body b)
                      (w\<lparr>requests_log := requests_log w @ [u b]\<rparr>))"
  have c1: "clock_reads ?w1 = Suc ?c" by simp
  show ?case
  proof (cases k)
    case 0
    have later: "\<forall>j<length bs. debug_path d (time_at env (clock_reads ?w1 + j)) n \<noteq>
                   debug_path d (time_at env ?c) n"
    proof (intro allI impI)
      fix j assume j: "j < length bs"
      have "time_at env (?c + Suc j) \<noteq> time_at env ?c"
      proof
        assume e: "time_at env (?c + Suc j) = time_at env ?c"
        have "?c + Suc j \<in> {?c..<?c + length (b # bs)}" "?c \<in> {?c..<?c + length (b # bs)}"
          using j by auto
        with Cons.prems(1) e have "?c + Suc j = ?c" by (meson inj_onD)
        then show False by simp
      qed
      then show "debug_path d (time_at env (clock_reads ?w1 + j)) n \<noteq>
                   debug_path d (time_at env ?c) n"
        unfolding c1 using debug_path_inj by fastforce
    qed
    have "map_of (debug_files ?w1) (debug_path d (time_at env ?c) n) =
            Some (debug_content (u b) (body b))"
      using Cons.prems(3) 0 by (simp add: save_debug_response_lookup)
    with fold_save_other[OF later] 0 show ?thesis by simp
  next
    case (Suc k')
    have inj1: "inj_on (time_at env) {clock_reads ?w1..<clock_reads ?w1 + length bs}"
      unfolding c1 by (rule inj_on_subset[OF Cons.prems(1)]) auto
    have k': "k' < length bs" using Cons.prems(2) Suc by simp
    have cw: "can_write env (debug_path d (time_at env (clock_reads ?w1 + k')) n)"
      using Cons.prems(3) Suc by simp
    from Cons.IH[OF inj1 k' cw] Suc show ?thesis by simp
  qed
qed

lemma debug_paths_distinct:
  assumes "inj_on (time_at env) {c..<c + m}"
  shows "distinct (map (\<lambda>k. debug_path d (time_at env (c + k)) n) [0..<m])"
proof -
  have "inj_on (\<lambda>k. debug_path d (time_at env (c + k)) n) {0..<m}"
  proof (rule inj_onI)
    fix i j assume i: "i \<in> {0..<m}" and j: "j \<in> {0..<m}"
      and e: "debug_path d (time_at env (c + i)) n = debug_path d (time_at env (c + j)) n"
    from e have "time_at env (c + i) = time_at env (c + j)" by (rule debug_path_inj)
    moreover have "c + i \<in> {c..<c + m}" "c + j \<in> {c..<c + m}" using i j by auto
    ultimately have "c + i = c + j" using assms by (meson inj_onD)
    then show "i = j" by simp
  qed
  then show ?thesis by (simp add: distinct_map)
qed

text \<open>
  C4, as stated, fails in its count of files: the file name is made of the clock's
  second and the label, so two candidates answered within one second share one file.
  Both candidates of \<open>h:1\<close> return a page without the marker; one file is left.
\<close>

theorem fetch_playlist_same_second_counterexample:
  "fetch_playlist_robust \<lparr>has_cloudscraper = False,
      scraper_get = (\<lambda>u t s. Inl (LibraryError ''not installed'')),
      requests_get = (\<lambda>u t s.
         Inr \<lparr>status_code = 200, body_text = ''<html>login</html>'',
              json_result = Inl ValueError, stream_result = Inr ''<html>login</html>''\<rparr>),
      time_at = (\<lambda>n. 1700000000), can_write = (\<lambda>p. True)\<rparr> ''h:1'' ''u'' ''p'' ''m3u_plus'' 20 \<lparr>debug_files = [], clock_reads = 0, requests_log = [], servers_file = []\<rparr> =
   (Inr PlaylistFailed,
    \<lparr>debug_files =
       [(''xtream_data32/debug/1700000000_playlist_nonm3u_debug.txt'',
         ''Endpoint: https://h:1/get.php?username=u&password=p&type=m3u_plus'' @ [LF, LF] @
         ''<html>login</html>'')],
     clock_reads = 2,
     requests_log =
       [''http://h:1/get.php?username=u&password=p&type=m3u_plus'',
        ''https://h:1/get.php?username=u&password=p&type=m3u_plus''],
     servers_file = []\<rparr>)"
  by (simp add: fetch_playlist_robust_def upper_def upper_char_def generate_endpoints_def generate_endpoints_with_def
      normalize_address_def
      strip_def is_space_def rstrip_chars_def schemes_and_host_def startswith_def split1_def
      common_ports_def candidates_def Let_def playlist_url_def request_with_client_def
      save_debug_response_def debug_path_def debug_content_def DEBUG_DIR_def replace_char_def
      show_int_def show_nat.simps digit_char_def)

text \<open>
  C4, amended. A status-200 response whose decoded body lacks \<open>#EXTM3U\<close> (tested on the
  upper-cased body) is handed to \<open>save_debug_response\<close> under the label
  \<open>playlist_nonm3u\<close> and the next candidate is tried. So when every candidate returns
  such a body, the result is the failure, every candidate was requested in order, and
  \<open>save_debug_response\<close> ran once per candidate. When the clock's seconds at the saves
  are pairwise distinct, the candidates' files have pairwise distinct names, and the
  file of every candidate whose write succeeds exists afterwards and holds that
  candidate's URL and body, whatever the directory held before.
\<close>

theorem fetch_playlist_all_non_m3u:
  assumes ge: "generate_endpoints address = Inr eps"
      and resp: "\<forall>base \<in> set eps. \<exists>r c.
             request_with_client env (playlist_url base uname pword m3u_type) timeout True =
               Inr (Inr r, c) \<and>
             status_code r = 200 \<and> stream_result r = Inr (body base) \<and>
             \<not> contains (upper (body base)) ''#EXTM3U''"
  shows "\<exists>w'. fetch_playlist_robust env address uname pword m3u_type timeout w =
                 (Inr PlaylistFailed, w') \<and>
           w' = foldl (\<lambda>w base. snd (save_debug_response DEBUG_DIR env ''playlist_nonm3u''
                      (playlist_url base uname pword m3u_type) (body base)
                      (w\<lparr>requests_log := requests_log w @ [playlist_url base uname pword m3u_type]\<rparr>)))
                  w eps \<and>
           requests_log w' =
             requests_log w @ map (\<lambda>base. playlist_url base uname pword m3u_type) eps \<and>
           clock_reads w' = clock_reads w + length eps \<and>
           (inj_on (time_at env) {clock_reads w..<clock_reads w + length eps} \<longrightarrow>
            distinct (map (\<lambda>k. debug_path DEBUG_DIR (time_at env (clock_reads w + k))
                                  ''playlist_nonm3u'') [0..<length eps]) \<and>
            (\<forall>k<length eps.
               can_write env
                 (debug_path DEBUG_DIR (time_at env (clock_reads w + k)) ''playlist_nonm3u'') \<longrightarrow>
               map_of (debug_files w')
                 (debug_path DEBUG_DIR (time_at env (clock_reads w + k)) ''playlist_nonm3u'') =
               Some (debug_content (playlist_url (eps ! k) uname pword m3u_type)
                       (body (eps ! k)))))"
proof -
  let ?w' = "foldl (\<lambda>w base. snd (save_debug_response DEBUG_DIR env ''playlist_nonm3u''
                      (playlist_url base uname pword m3u_type) (body base)
                      (w\<lparr>requests_log := requests_log w @ [playlist_url base uname pword m3u_type]\<rparr>)))
                  w eps"
  have f: "fetch_playlist_robust env address uname pword m3u_type timeout w = (Inr PlaylistFailed, ?w')"
    unfolding fetch_playlist_robust_def ge
    using playlist_loop_all_non_m3u[OF resp, of w] by simp
  have l: "requests_log ?w' =
             requests_log w @ map (\<lambda>base. playlist_url base uname pword m3u_type) eps"
    by (rule fold_save_log)
  have c: "clock_reads ?w' = clock_reads w + length eps"
    by (rule fold_save_clock)
  have d: "distinct (map (\<lambda>k. debug_path DEBUG_DIR (time_at env (clock_reads w + k))
                                  ''playlist_nonm3u'') [0..<length eps])"
    if "inj_on (time_at env) {clock_reads w..<clock_reads w + length eps}"
    using that by (rule debug_paths_distinct)
  have m: "map_of (debug_files ?w')
                 (debug_path DEBUG_DIR (time_at env (clock_reads w + k)) ''playlist_nonm3u'') =
               Some (debug_content (playlist_url (eps ! k) uname pword m3u_type)
                       (body (eps ! k)))"
    if "inj_on (time_at env) {clock_reads w..<clock_reads w + length eps}"
      "k < length eps"
      "can_write env
         (debug_path DEBUG_DIR (time_at env (clock_reads w + k)) ''playlist_nonm3u'')" for k
    using that by (rule fold_save_lookup)
  show ?thesis
    using f l c d m by blast
qed

theorem fetch_playlist_all_non_m3u_witness:
  "fst (fetch_playlist_robust \<lparr>has_cloudscraper = False,
      scraper_get = (\<lambda>u t s. Inl (LibraryError ''not installed'')),
      requests_get = (\<lambda>u t s.
         Inr \<lparr>status_code = 200, body_text = ''<html>login</html>'',
              json_result = Inl ValueError, stream_result = Inr ''<html>login</html>''\<rparr>),
      time_at = (\<lambda>n. 1700000000 + int n), can_write = (\<lambda>p. True)\<rparr> ''h:1'' ''u'' ''p'' ''m3u_plus'' 20
      \<lparr>debug_files = [(''xtream_data32/debug/1700000000_playlist_nonm3u_debug.txt'', ''old'')],
       clock_reads = 0, requests_log = [], servers_file = []\<rparr>) = Inr PlaylistFailed \<and>
   map_of (debug_files (snd (fetch_playlist_robust \<lparr>has_cloudscraper = False,
      scraper_get = (\<lambda>u t s. Inl (LibraryError ''not installed'')),
      requests_get = (\<lambda>u t s.
         Inr \<lparr>status_code = 200, body_text = ''<html>login</html>'',
              json_result = Inl ValueError, stream_result = Inr ''<html>login</html>''\<rparr>),
      time_at = (\<lambda>n. 1700000000 + int n), can_write = (\<lambda>p. True)\<rparr> ''h:1'' ''u'' ''p'' ''m3u_plus'' 20
      \<lparr>debug_files = [(''xtream_data32/debug/1700000000_playlist_nonm3u_debug.txt'', ''old'')],
       clock_reads = 0, requests_log = [], servers_file = []\<rparr>)))
     ''xtream_data32/debug/1700000000_playlist_nonm3u_debug.txt'' =
     Some (''Endpoint: http://h:1/get.php?username=u&password=p&type=m3u_plus'' @ [LF, LF] @
           ''<html>login</html>'') \<and>
   map_of (debug_files (snd (fetch_playlist_robust \<lparr>has_cloudscraper = False,
      scraper_get = (\<lambda>u t s. Inl (LibraryError ''not installed'')),
      requests_get = (\<lambda>u t s.
         Inr \<lparr>status_code = 200, body_text = ''<html>login</html>'',
              json_result = Inl ValueError, stream_result = Inr ''<html>login</html>''\<rparr>),
      time_at = (\<lambda>n. 1700000000 + int n), can_write = (\<lambda>p. True)\<rparr> ''h:1'' ''u'' ''p'' ''m3u_plus'' 20
      \<lparr>debug_files = [(''xtream_data32/debug/1700000000_playlist_nonm3u_debug.txt'', ''old'')],
       clock_reads = 0, requests_log = [], servers_file = []\<rparr>)))
     ''xtream_data32/debug/1700000001_playlist_nonm3u_debug.txt'' =
     Some (''Endpoint: https://h:1/get.php?username=u&password=p&type=m3u_plus'' @ [LF, LF] @
           ''<html>login</html>'')"
proof -
  let ?env = "\<lparr>has_cloudscraper = False,
      scraper_get = (\<lambda>u t s. Inl (LibraryError ''not installed'')),
      requests_get = (\<lambda>u t s.
         Inr \<lparr>status_code = 200, body_text = ''<html>login</html>'',
              json_result = Inl ValueError, stream_result = Inr ''<html>login</html>''\<rparr>),
      time_at = (\<lambda>n. 1700000000 + int n), can_write = (\<lambda>p. True)\<rparr>"
  let ?w = "\<lparr>debug_files = [(''xtream_data32/debug/1700000000_playlist_nonm3u_debug.txt'', ''old'')],
       clock_reads = 0, requests_log = [], servers_file = []\<rparr>"
  have ge: "generate_endpoints ''h:1'' = Inr [''http://h:1'', ''https://h:1'']"
    by (simp add: generate_endpoints_def generate_endpoints_with_def normalize_address_def
      strip_def is_space_def rstrip_chars_def schemes_and_host_def startswith_def split1_def
      common_ports_def candidates_def Let_def)
  have resp: "\<forall>base \<in> set [''http://h:1'', ''https://h:1'']. \<exists>r c.
             request_with_client ?env (playlist_url base ''u'' ''p'' ''m3u_plus'') 20 True =
               Inr (Inr r, c) \<and>
             status_code r = 200 \<and> stream_result r = Inr ((\<lambda>b. ''<html>login</html>'') base) \<and>
             \<not> contains (upper ((\<lambda>b. ''<html>login</html>'') base)) ''#EXTM3U''"
    by (simp add: request_with_client_def upper_def upper_char_def startswith_def)
  have i: "inj_on (time_at ?env) {clock_reads ?w..<clock_reads ?w + length [''http://h:1'', ''https://h:1'']}"
    by (simp add: inj_on_def)
  from fetch_playlist_all_non_m3u [OF ge resp, of ?w] i
  obtain w' where f:
    "fetch_playlist_robust ?env ''h:1'' ''u'' ''p'' ''m3u_plus'' 20 ?w = (Inr PlaylistFailed, w')"
    and m: "\<forall>k<length [''http://h:1'', ''https://h:1''].
       can_write ?env
         (debug_path DEBUG_DIR (time_at ?env (clock_reads ?w + k)) ''playlist_nonm3u'') \<longrightarrow>
       map_of (debug_files w')
         (debug_path DEBUG_DIR (time_at ?env (clock_reads ?w + k)) ''playlist_nonm3u'') =
       Some (debug_content (playlist_url ([''http://h:1'', ''https://h:1''] ! k) ''u'' ''p'' ''m3u_plus'')
               ''<html>login</html>'')"
    by blast
  have p0: "debug_path DEBUG_DIR (time_at ?env (clock_reads ?w + 0)) ''playlist_nonm3u'' =
      ''xtream_data32/debug/1700000000_playlist_nonm3u_debug.txt''"
    by (simp add: debug_path_def DEBUG_DIR_def replace_char_def show_int_def show_nat.simps
        digit_char_def)
  have p1: "debug_path DEBUG_DIR (time_at ?env (clock_reads ?w + 1)) ''playlist_nonm3u'' =
      ''xtream_data32/debug/1700000001_playlist_nonm3u_debug.txt''"
    by (simp add: debug_path_def DEBUG_DIR_def replace_char_def show_int_def show_nat.simps
        digit_char_def)
  have m0: "map_of (debug_files w') ''xtream_data32/debug/1700000000_playlist_nonm3u_debug.txt'' =
      Some (debug_content (playlist_url ''http://h:1'' ''u'' ''p'' ''m3u_plus'') ''<html>login</html>'')"
    using m[rule_format, of 0] unfolding p0 by simp
  have m1: "map_of (debug_files w') ''xtream_data32/debug/1700000001_playlist_nonm3u_debug.txt'' =
      Some (debug_content (playlist_url ''https://h:1'' ''u'' ''p'' ''m3u_plus'') ''<html>login</html>'')"
    using m[rule_format, of 1] unfolding p1 by simp
  show ?thesis
    unfolding f using m0 m1 by (simp add: playlist_url_def debug_content_def)
qed

section \<open>Properties of refreshing a server\<close>

lemma refresh_with_failure:
  assumes "idx < length (servers_file w)"
      and "fetch env (server_url (servers_file w ! idx)) (username (servers_file w ! idx))
             (password (servers_file w ! idx)) DEFAULT_TIMEOUT w = (Inr (ApiFailed tried), w1)"
  shows "refresh_with fetch env idx w =
           (Inr (),
            w1\<lparr>clock_reads := Suc (clock_reads w1),
                servers_file := (servers_file w)
                  [idx := (servers_file w ! idx)
                     \<lparr>last_endpoint := None, last_client := None,
                      last_check := Some (time_at env (clock_reads w1))\<rparr>]\<rparr>)"
  using assms by (simp add: refresh_with_def Let_def)

text \<open>
  C10. When \<open>fetch_player_api_robust\<close> reports the failure during \<open>refresh_server\<close> (in
  \<open>main.py\<close> as in \<open>xtream.py\<close>), the selected record gets \<open>last_endpoint = None\<close>,
  \<open>last_client = None\<close> and \<open>last_check\<close> = the current time; its other fields and all
  other records stay as loaded; the list is saved.
\<close>

theorem refresh_server_failure_frame:
  assumes idx: "idx < length (servers_file w)"
      and which: "(fetch, refresh) = (fetch_player_api_robust, refresh_server) \<or>
                  (fetch, refresh) = (fetch_player_api_robust_xtream, refresh_server_xtream)"
      and failed: "fetch env (server_url (servers_file w ! idx)) (username (servers_file w ! idx))
             (password (servers_file w ! idx)) DEFAULT_TIMEOUT w = (Inr (ApiFailed tried), w1)"
  shows "\<exists>w'. refresh env idx w = (Inr (), w') \<and>
           servers_file w' =
             (servers_file w)
               [idx := (servers_file w ! idx)
                  \<lparr>last_endpoint := None, last_client := None,
                   last_check := Some (time_at env (clock_reads w1))\<rparr>] \<and>
           length (servers_file w') = length (servers_file w) \<and>
           (\<forall>j<length (servers_file w). j \<noteq> idx \<longrightarrow> servers_file w' ! j = servers_file w ! j) \<and>
           last_endpoint (servers_file w' ! idx) = None \<and>
           last_client (servers_file w' ! idx) = None \<and>
           last_check (servers_file w' ! idx) = Some (time_at env (clock_reads w1)) \<and>
           name (servers_file w' ! idx) = name (servers_file w ! idx) \<and>
           server_url (servers_file w' ! idx) = server_url (servers_file w ! idx) \<and>
           username (servers_file w' ! idx) = username (servers_file w ! idx) \<and>
           password (servers_file w' ! idx) = password (servers_file w ! idx) \<and>
           created_at (servers_file w' ! idx) = created_at (servers_file w ! idx) \<and>
           user_info (servers_file w' ! idx) = user_info (servers_file w ! idx) \<and>
           server_info (servers_file w' ! idx) = server_info (servers_file w ! idx)"
proof -
  have r: "refresh env idx w = refresh_with fetch env idx w"
    using which by (auto simp: refresh_server_def refresh_server_xtream_def)
  have s: "refresh_with fetch env idx w =
           (Inr (),
            w1\<lparr>clock_reads := Suc (clock_reads w1),
                servers_file := (servers_file w)
                  [idx := (servers_file w ! idx)
                     \<lparr>last_endpoint := None, last_client := None,
                      last_check := Some (time_at env (clock_reads w1))\<rparr>]\<rparr>)"
    using idx failed by (rule refresh_with_failure)
  show ?thesis
    unfolding r s using idx by simp
qed

theorem refresh_server_failure_frame_witness:
  "fst (refresh_server \<lparr>has_cloudscraper = False,
      scraper_get = (\<lambda>u t s. Inl (LibraryError ''not installed'')),
      requests_get = (\<lambda>u t s. Inl (LibraryError ''connection refused'')),
      time_at = (\<lambda>n. 1700000000 + int n), can_write = (\<lambda>p. True)\<rparr> 0 \<lparr>debug_files = [], clock_reads = 0, requests_log = [],
      servers_file = [\<lparr>name = ''Home'', server_url = ''example.com:8080'', username = ''bob'', password = ''pw'',
       created_at = 1600000000, last_check = Some 1650000000,
       last_endpoint = Some ''http://example.com:8080/player_api.php?username=bob&password=pw'',
       last_client = Some ''requests'',
       user_info = JObj [(''status'', JStr ''Active'')], server_info = JObj []\<rparr>,
        \<lparr>name = ''Other'', server_url = ''tv.example.org'', username = ''amy'', password = ''x'',
       created_at = 1600000001, last_check = None, last_endpoint = None, last_client = None,
       user_info = JObj [], server_info = JObj []\<rparr>]\<rparr>) = Inr () \<and>
   servers_file (snd (refresh_server \<lparr>has_cloudscraper = False,
      scraper_get = (\<lambda>u t s. Inl (LibraryError ''not installed'')),
      requests_get = (\<lambda>u t s. Inl (LibraryError ''connection refused'')),
      time_at = (\<lambda>n. 1700000000 + int n), can_write = (\<lambda>p. True)\<rparr> 0 \<lparr>debug_files = [], clock_reads = 0, requests_log = [],
      servers_file = [\<lparr>name = ''Home'', server_url = ''example.com:8080'', username = ''bob'', password = ''pw'',
       created_at = 1600000000, last_check = Some 1650000000,
       last_endpoint = Some ''http://example.com:8080/player_api.php?username=bob&password=pw'',
       last_client = Some ''requests'',
       user_info = JObj [(''status'', JStr ''Active'')], server_info = JObj []\<rparr>,
        \<lparr>name = ''Other'', server_url = ''tv.example.org'', username = ''amy'', password = ''x'',
       created_at = 1600000001, last_check = None, last_endpoint = None, last_client = None,
       user_info = JObj [], server_info = JObj []\<rparr>]\<rparr>)) =
     [\<lparr>name = ''Home'', server_url = ''example.com:8080'', username = ''bob'', password = ''pw'',
       created_at = 1600000000, last_check = Some 1700000000,
       last_endpoint = None, last_client = None,
       user_info = JObj [(''status'', JStr ''Active'')], server_info = JObj []\<rparr>,
      \<lparr>name = ''Other'', server_url = ''tv.example.org'', username = ''amy'', password = ''x'',
       created_at = 1600000001, last_check = None, last_endpoint = None, last_client = None,
       user_info = JObj [], server_info = JObj []\<rparr>]"
proof -
  let ?env = "\<lparr>has_cloudscraper = False,
      scraper_get = (\<lambda>u t s. Inl (LibraryError ''not installed'')),
      requests_get = (\<lambda>u t s. Inl (LibraryError ''connection refused'')),
      time_at = (\<lambda>n. 1700000000 + int n), can_write = (\<lambda>p. True)\<rparr>"
  let ?w = "\<lparr>debug_files = [], clock_reads = 0, requests_log = [],
      servers_file = [\<lparr>name = ''Home'', server_url = ''example.com:8080'', username = ''bob'', password = ''pw'',
       created_at = 1600000000, last_check = Some 1650000000,
       last_endpoint = Some ''http://example.com:8080/player_api.php?username=bob&password=pw'',
       last_client = Some ''requests'',
       user_info = JObj [(''status'', JStr ''Active'')], server_info = JObj []\<rparr>,
        \<lparr>name = ''Other'', server_url = ''tv.example.org'', username = ''amy'', password = ''x'',
       created_at = 1600000001, last_check = None, last_endpoint = None, last_client = None,
       user_info = JObj [], server_info = JObj []\<rparr>]\<rparr>"
  have idx: "0 < length (servers_file ?w)" by simp
  have which: "(fetch_player_api_robust, refresh_server) = (fetch_player_api_robust, refresh_server) \<or>
     (fetch_player_api_robust, refresh_server) = (fetch_player_api_robust_xtream, refresh_server_xtream)"
    by simp
  have failed: "fetch_player_api_robust ?env (server_url (servers_file ?w ! 0))
       (username (servers_file ?w ! 0)) (password (servers_file ?w ! 0)) DEFAULT_TIMEOUT ?w =
     (Inr (ApiFailed
        [(''http://example.com:8080/player_api.php?username=bob&password=pw'',
          Inl (LibraryError ''connection refused''), ''requests''),
         (''https://example.com:8080/player_api.php?username=bob&password=pw'',
          Inl (LibraryError ''connection refused''), ''requests'')]),
      ?w\<lparr>requests_log :=
           [''http://example.com:8080/player_api.php?username=bob&password=pw'',
            ''https://example.com:8080/player_api.php?username=bob&password=pw'']\<rparr>)"
    by (simp add: fetch_player_api_robust_def generate_endpoints_def generate_endpoints_with_def
      normalize_address_def
      strip_def is_space_def rstrip_chars_def schemes_and_host_def startswith_def split1_def
      common_ports_def candidates_def Let_def api_url_def request_with_client_def)
  from refresh_server_failure_frame [OF idx which failed]
  obtain w' where
    "refresh_server ?env 0 ?w = (Inr (), w')"
    "servers_file w' =
       (servers_file ?w)
         [0 := (servers_file ?w ! 0)
            \<lparr>last_endpoint := None, last_client := None,
             last_check := Some (time_at ?env (clock_reads (?w\<lparr>requests_log :=
           [''http://example.com:8080/player_api.php?username=bob&password=pw'',
            ''https://example.com:8080/player_api.php?username=bob&password=pw'']\<rparr>)))\<rparr>]"
    by blast
  then show ?thesis by simp
qed

end
